theory Spec2Isabelle
  imports Complex_Main "HOL-Library.AList" "HOL-Library.Multiset"
begin

section \<open>Python values shared by the embedding\<close>

text \<open>
  The exceptions of \<^verbatim>\<open>tools/ms3.py\<close> that the embedding distinguishes. Every
  \<^verbatim>\<open>raise\<close> of the source, and every failing library call the embedding covers, is a
  value \<open>Inl e\<close> of a result type \<open>py_error + 'a\<close>.
\<close>

datatype py_error = ValueError | IndexError | KeyError | TypeError | StopIteration | AttributeError | LookupError
  | ZeroDivisionError

text \<open>Sequencing: the first exception raised ends the computation.\<close>

definition ebind :: "py_error + 'a \<Rightarrow> ('a \<Rightarrow> py_error + 'b) \<Rightarrow> py_error + 'b" where
  "ebind m f = (case m of Inl e \<Rightarrow> Inl e | Inr x \<Rightarrow> f x)"

section \<open>Spelling of tonal pitch classes (\<^verbatim>\<open>spell_tpc\<close>)\<close>

text \<open>
  \<^verbatim>\<open>PITCH_NAMES = {0: 'F', 1: 'C', 2: 'G', 3: 'D', 4: 'A', 5: 'E', 6: 'B'}\<close>:
  a dictionary, so reading a missing key raises \<^verbatim>\<open>KeyError\<close>.
\<close>

definition PITCH_NAMES :: "int \<rightharpoonup> string" where
  "PITCH_NAMES = [0 \<mapsto> ''F'', 1 \<mapsto> ''C'', 2 \<mapsto> ''G'', 3 \<mapsto> ''D'', 4 \<mapsto> ''A'', 5 \<mapsto> ''E'', 6 \<mapsto> ''B'']"

text \<open>
  The scalar branch of \<^verbatim>\<open>spell_tpc\<close>. Python's \<^verbatim>\<open>//\<close> and \<^verbatim>\<open>%\<close> with the positive
  divisor 7 are floor division and its remainder, which is what \<open>div\<close> and \<open>mod\<close> are
  on \<open>int\<close>; \<^verbatim>\<open>k * 'b'\<close> repeats the character \<open>k\<close> times (no times for \<open>k \<le> 0\<close>).
\<close>

definition spell_tpc :: "int \<Rightarrow> py_error + string" where
  "spell_tpc tpc0 =
     (let tpc = tpc0 + 1;
          acc = (if tpc < 0 then replicate (nat \<bar>tpc div 7\<bar>) (CHR ''b'')
                 else replicate (nat (tpc div 7)) (CHR ''#''))
      in case PITCH_NAMES (tpc mod 7) of
           None \<Rightarrow> Inl KeyError
         | Some name \<Rightarrow> Inr (name @ acc))"

section \<open>The log\<close>

text \<open>
  The source reports through Python's \<^verbatim>\<open>logging\<close> module and goes on. The embedding
  returns the messages a function logs, in order, beside its result; the text of a message
  is kept without the values the source formats into it.
\<close>

datatype log_level = Debug | Info | Warning | Error | Critical

type_synonym log = "(log_level \<times> string) list"

section \<open>Feature extraction for \<^verbatim>\<open>Volta\<close> tags (\<^verbatim>\<open>feature_from_node\<close>)\<close>

text \<open>
  What the \<^verbatim>\<open>Volta\<close> branch reads of the element \<^verbatim>\<open>node.find_next('next').location\<close>:
  whether it has a \<^verbatim>\<open>fractions\<close> child, and its \<^verbatim>\<open>measures\<close> child, if any. The text of
  \<^verbatim>\<open>measures\<close> is \<open>Some m\<close> when \<^verbatim>\<open>int\<close> reads it as the integer \<open>m\<close> and \<open>None\<close> when
  \<^verbatim>\<open>int\<close> raises \<^verbatim>\<open>ValueError\<close> on it.
\<close>

record volta_location =
  has_fractions :: bool
  measures :: "int option option"

text \<open>
  \<^verbatim>\<open>val = 1 if loc.find('fractions') else 0\<close>, then \<^verbatim>\<open>val += int(loc.measures.string)\<close>
  when there is a \<^verbatim>\<open>measures\<close> child, then the error message when \<^verbatim>\<open>val == 0\<close>; the
  value is returned in every case.
\<close>

definition feature_from_node_Volta :: "volta_location \<Rightarrow> py_error + (int \<times> log)" where
  "feature_from_node_Volta loc =
     (let val0 = (if has_fractions loc then 1 else 0 :: int)
      in case measures loc of
           Some None \<Rightarrow> Inl ValueError
         | ms \<Rightarrow>
             (let val = (case ms of Some (Some m) \<Rightarrow> val0 + m | _ \<Rightarrow> val0)
              in Inr (val, if val = 0 then [(Error, ''Length of volta not specified.'')] else [])))"

section \<open>Measure numbers (\<^verbatim>\<open>compute_mn\<close>)\<close>

text \<open>
  A pandas column is a list of cells, \<open>None\<close> for \<^verbatim>\<open>NaN\<close>; its index is the range of
  measure counts \<open>0, 1, \<dots>\<close>, so the label \<open>i\<close> is the position \<open>i\<close>.
\<close>

text \<open>\<^verbatim>\<open>fillna(method='ffill')\<close>: every \<^verbatim>\<open>NaN\<close> takes the last value seen before it.\<close>

fun ffill_from :: "'a option \<Rightarrow> 'a option list \<Rightarrow> 'a option list" where
  "ffill_from prev [] = []"
| "ffill_from prev (None # xs) = prev # ffill_from prev xs"
| "ffill_from prev (Some v # xs) = Some v # ffill_from (Some v) xs"

definition ffill :: "'a option list \<Rightarrow> 'a option list" where
  "ffill xs = ffill_from None xs"

text \<open>\<^verbatim>\<open>cumsum()\<close>: the running sum of the cells that hold a value; a \<^verbatim>\<open>NaN\<close> stays.\<close>

fun cumsum_from :: "int \<Rightarrow> int option list \<Rightarrow> int option list" where
  "cumsum_from acc [] = []"
| "cumsum_from acc (None # xs) = None # cumsum_from acc xs"
| "cumsum_from acc (Some v # xs) = Some (acc + v) # cumsum_from (acc + v) xs"

definition cumsum :: "int option list \<Rightarrow> int option list" where
  "cumsum xs = cumsum_from 0 xs"

text \<open>
  \<^verbatim>\<open>if isnan(s[0]): s[0] = v\<close>: reading the label \<open>0\<close> of an empty column raises
  \<^verbatim>\<open>KeyError\<close> or \<^verbatim>\<open>IndexError\<close>, depending on the type of the index; both are a
  \<^verbatim>\<open>LookupError\<close>.
\<close>

definition fill_first :: "'a \<Rightarrow> 'a option list \<Rightarrow> py_error + 'a option list" where
  "fill_first v xs =
     (case xs of
        [] \<Rightarrow> Inl LookupError
      | None # rest \<Rightarrow> Inr (Some v # rest)
      | Some w # rest \<Rightarrow> Inr xs)"

text \<open>\<^verbatim>\<open>astype('int')\<close> raises \<^verbatim>\<open>ValueError\<close> on a column that still holds a \<^verbatim>\<open>NaN\<close>.\<close>

fun astype_int :: "int option list \<Rightarrow> py_error + int list" where
  "astype_int [] = Inr []"
| "astype_int (None # xs) = Inl ValueError"
| "astype_int (Some v # xs) = (case astype_int xs of Inl e \<Rightarrow> Inl e | Inr vs \<Rightarrow> Inr (v # vs))"

text \<open>\<^verbatim>\<open>mn += offset\<close> on two columns with the same index: a sum with \<^verbatim>\<open>NaN\<close> is \<^verbatim>\<open>NaN\<close>.\<close>

definition add_columns :: "int option list \<Rightarrow> int option list \<Rightarrow> int option list" where
  "add_columns xs ys =
     map (\<lambda>(x, y). case (x, y) of (Some a, Some b) \<Rightarrow> Some (a + b) | _ \<Rightarrow> None) (zip xs ys)"

text \<open>The sum of the cells of a column that hold a value.\<close>

definition present_sum :: "int option list \<Rightarrow> int" where
  "present_sum xs = sum_list (map (\<lambda>c. case c of None \<Rightarrow> 0 | Some d \<Rightarrow> d) xs)"

text \<open>
  The argument of \<^verbatim>\<open>compute_mn\<close>: a Series (or a DataFrame of one column) of the
  \<^verbatim>\<open>dont_count\<close> cells, or a DataFrame whose rows hold the \<^verbatim>\<open>dont_count\<close> and the
  \<^verbatim>\<open>numbering_offset\<close> cell of each measure.
\<close>

datatype mn_input = OneColumn "int option list" | TwoColumns "(int option \<times> int option) list"

definition excluded_of :: "mn_input \<Rightarrow> int option list" where
  "excluded_of df = (case df of OneColumn ex \<Rightarrow> ex | TwoColumns rows \<Rightarrow> map fst rows)"

definition offset_of :: "mn_input \<Rightarrow> int option list option" where
  "offset_of df = (case df of OneColumn ex \<Rightarrow> None | TwoColumns rows \<Rightarrow> Some (map snd rows))"

text \<open>
  \<^verbatim>\<open>regular_ix = ix[excluded.isna()]\<close>,
  \<^verbatim>\<open>mn = pd.Series(range(1, 1 + len(regular_ix)), index=regular_ix).reindex(ix)\<close>:
  the counted rows are numbered 1, 2, \<dots> and every other row is \<^verbatim>\<open>NaN\<close>.
\<close>

definition regular_ix :: "int option list \<Rightarrow> nat list" where
  "regular_ix excluded = filter (\<lambda>i. excluded ! i = None) [0..<length excluded]"

definition number_regular :: "int option list \<Rightarrow> int option list" where
  "number_regular excluded =
     (let rix = regular_ix excluded;
          mn = map_of (zip rix (map int [1..<1 + length rix]))
      in map mn [0..<length excluded])"

text \<open>
  \<^verbatim>\<open>compute_mn\<close>. The measure numbers it returns do not depend on \<^verbatim>\<open>check\<close>:
  \<^verbatim>\<open>check_mn\<close> only writes to the log.
\<close>

definition compute_mn :: "mn_input \<Rightarrow> py_error + int list" where
  "compute_mn df =
     ebind (fill_first 0 (number_regular (excluded_of df))) (\<lambda>mn0.
     let mn1 = ffill mn0 in
     ebind (case offset_of df of
              None \<Rightarrow> Inr mn1
            | Some offset \<Rightarrow>
                if list_ex (\<lambda>c. c \<noteq> None) offset
                then ebind (fill_first 0 offset) (\<lambda>offset0.
                       Inr (add_columns mn1 (ffill (cumsum offset0))))
                else Inr mn1) (\<lambda>mn2.
     astype_int mn2))"

section \<open>Selecting sections (\<^verbatim>\<open>treat_section_index\<close>, first part of \<^verbatim>\<open>Score.get_notes\<close>)\<close>

text \<open>
  \<^verbatim>\<open>treat_section_index(i, n)\<close> for an integer \<open>i\<close> and \<open>n\<close> sections: a negative index
  counts from the end, an index outside \<open>[-n, n - 1]\<close> logs a warning and gives
  \<^verbatim>\<open>None\<close>.
\<close>

definition treat_section_index :: "int \<Rightarrow> int \<Rightarrow> int option \<times> log" where
  "treat_section_index i n =
     (if i < 0
      then (if i < - n then (None, [(Warning, ''Section does not exist.'')])
            else (Some (n + i), []))
      else (if i > n - 1 then (None, [(Warning, ''Section does not exist.'')])
            else (Some i, [])))"

text \<open>
  On a collection the function treats every element and keeps the order:
  \<^verbatim>\<open>[treat_section_index(e, n) for e in i]\<close>.
\<close>

definition treat_section_indices :: "int list \<Rightarrow> int \<Rightarrow> int option list \<times> log" where
  "treat_section_indices xs n =
     (map (\<lambda>e. fst (treat_section_index e n)) xs,
      concat (map (\<lambda>e. snd (treat_section_index e n)) xs))"

text \<open>
  The \<^verbatim>\<open>section\<close> argument of \<^verbatim>\<open>get_notes\<close>, for the documented arguments:
  \<^verbatim>\<open>None\<close>, an integer, a 2-tuple of integers, or another collection of integers.
\<close>

datatype section_arg =
    AllSections
  | OneSection int
  | SectionPair int int
  | SectionList "int list"

text \<open>
  \<^verbatim>\<open>range(fro, to + 1)\<close> and \<^verbatim>\<open>reversed(range(to, fro + 1))\<close> as lists of integers.
\<close>

definition py_range :: "int \<Rightarrow> int \<Rightarrow> int list" where
  "py_range a b = map (\<lambda>k. a + int k) [0..<nat (b - a)]"

text \<open>
  The keys under which the selected note lists are concatenated: the section id, and for
  an id selected more than once the position among its occurrences, which the source
  turns into the suffix \<^verbatim>\<open>a\<close>, \<^verbatim>\<open>b\<close>, \<^verbatim>\<open>c\<close>, \<dots>
\<close>

fun concat_keys :: "int list \<Rightarrow> int list \<Rightarrow> (int \<times> nat option) list" where
  "concat_keys seen [] = []"
| "concat_keys seen (s # rest) =
     (s, if count_list (rev seen @ s # rest) s > 1 then Some (count_list seen s) else None)
     # concat_keys (s # seen) rest"

text \<open>
  The part of \<^verbatim>\<open>get_notes\<close> that selects the sections, for a score of \<open>n\<close> sections.
  The result is the exception raised, or \<open>None\<close> when \<^verbatim>\<open>get_notes\<close> returns \<^verbatim>\<open>None\<close> at
  this point, or the keyed list of the sections whose notes are concatenated; beside it
  the warnings logged. \<^verbatim>\<open>pd.concat\<close> of an empty list raises \<^verbatim>\<open>ValueError\<close>.
\<close>

definition select_sections ::
  "int \<Rightarrow> section_arg \<Rightarrow> py_error + ((int \<times> nat option) list option \<times> log)" where
  "select_sections n section =
     (case section of
        AllSections \<Rightarrow>
          if n = 0 then Inl ValueError
          else Inr (Some (map (\<lambda>s. (s, None)) (py_range 0 n)), [])
      | OneSection i \<Rightarrow>
          (case treat_section_index i n of
             (None, lg) \<Rightarrow> Inl ValueError
           | (Some s, lg) \<Rightarrow> Inr (Some [(s, None)], lg))
      | SectionPair a b \<Rightarrow>
          (let (ta, lga) = treat_section_index a n;
               (tb, lgb) = treat_section_index b n;
               (fro, lgf) = (case ta of
                               None \<Rightarrow> (0, [(Warning, ''Replaced by first section 0.'')])
                             | Some f \<Rightarrow> (f, []));
               (to, lgt) = (case tb of
                              None \<Rightarrow> (n - 1, [(Warning, ''Replaced by last section.'')])
                            | Some t \<Rightarrow> (t, []));
               ran = (if to \<ge> fro then py_range fro (to + 1) else rev (py_range to (fro + 1)));
               (treated, lg2) = treat_section_indices ran n;
               kept = map the (filter (\<lambda>t. t \<noteq> None) treated);
               lg = lga @ lgb @ lgf @ lgt @ lg2
           in if length kept > 0 then Inr (Some (concat_keys [] kept), lg) else Inr (None, lg))
      | SectionList xs \<Rightarrow>
          (let (treated, lg) = treat_section_indices xs n;
               kept = map the (filter (\<lambda>t. t \<noteq> None) treated)
           in if length kept > 0 then Inr (Some (concat_keys [] kept), lg) else Inr (None, lg)))"

section \<open>Python numbers\<close>

text \<open>
  The numbers of the temporal computations are Python \<^verbatim>\<open>int\<close>s, \<^verbatim>\<open>Fraction\<close>s and
  \<^verbatim>\<open>float\<close>s. A \<^verbatim>\<open>Fraction\<close> is an exact rational in lowest terms, which is what \<open>rat\<close>
  is. A finite \<^verbatim>\<open>float\<close> is an IEEE-754 double; \<open>PFloat q\<close> is the double whose exact
  value is the rational \<open>q\<close>.
\<close>

datatype pynum = PInt int | PFrac rat | PFloat rat

definition num_val :: "pynum \<Rightarrow> rat" where
  "num_val x = (case x of PInt i \<Rightarrow> of_int i | PFrac q \<Rightarrow> q | PFloat q \<Rightarrow> q)"

definition is_float :: "pynum \<Rightarrow> bool" where
  "is_float x = (case x of PFloat q \<Rightarrow> True | _ \<Rightarrow> False)"

text \<open>The number of binary digits of a positive integer (\<^verbatim>\<open>int.bit_length\<close>).\<close>

function bit_length :: "int \<Rightarrow> int" where
  "bit_length n = (if n \<le> 0 then 0 else 1 + bit_length (n div 2))"
  by pat_completeness auto
termination
  by (relation "measure nat") auto

declare bit_length.simps [simp del]

text \<open>
  \<open>floor_log2 q\<close> is the integer \<open>k\<close> with \<open>2 powi k \<le> q < 2 powi (k + 1)\<close>, for a
  positive rational \<open>q\<close>: the bit lengths of numerator and denominator leave two
  candidates.
\<close>

definition floor_log2 :: "rat \<Rightarrow> int" where
  "floor_log2 q =
     (let (n, d) = quotient_of q;
          k = bit_length n - bit_length d
      in if 2 powi k \<le> q then k else k - 1)"

definition round_half_even :: "rat \<Rightarrow> int" where
  "round_half_even q =
     (let f = \<lfloor>q\<rfloor>; d = q - of_int f
      in if d < 1 / 2 then f
         else if 1 / 2 < d then f + 1
         else if even f then f else f + 1)"

text \<open>
  Conversion of an exact value to the nearest double (ties to even): 53 significant bits,
  and the fixed exponent \<open>-1074\<close> of the subnormal range. Magnitudes beyond the largest
  double, where Python raises \<^verbatim>\<open>OverflowError\<close> or yields \<^verbatim>\<open>inf\<close>, are outside the
  embedding; no float is evaluated there below.
\<close>

definition to_double :: "rat \<Rightarrow> rat" where
  "to_double q =
     (if q = 0 then 0
      else let a = \<bar>q\<bar>;
               e = max (floor_log2 a - 52) (- 1074);
               m = round_half_even (a / 2 powi e)
           in sgn q * of_int m * 2 powi e)"

text \<open>
  \<^verbatim>\<open>*\<close> and \<^verbatim>\<open>+\<close>. With two exact operands the result is exact, an \<^verbatim>\<open>int\<close> only when both
  are. With a \<^verbatim>\<open>float\<close> operand, \<^verbatim>\<open>Fraction\<close>'s operator fallback and \<^verbatim>\<open>float\<close>'s own
  arithmetic first convert the other operand with \<^verbatim>\<open>float()\<close> and then compute in
  doubles, so that the result is a \<^verbatim>\<open>float\<close>.
\<close>

fun py_mul :: "pynum \<Rightarrow> pynum \<Rightarrow> pynum" where
  "py_mul (PInt a) (PInt b) = PInt (a * b)"
| "py_mul (PInt a) (PFrac b) = PFrac (of_int a * b)"
| "py_mul (PFrac a) (PInt b) = PFrac (a * of_int b)"
| "py_mul (PFrac a) (PFrac b) = PFrac (a * b)"
| "py_mul (PFloat a) y = PFloat (to_double (a * to_double (num_val y)))"
| "py_mul x (PFloat b) = PFloat (to_double (to_double (num_val x) * b))"

fun py_add :: "pynum \<Rightarrow> pynum \<Rightarrow> pynum" where
  "py_add (PInt a) (PInt b) = PInt (a + b)"
| "py_add (PInt a) (PFrac b) = PFrac (of_int a + b)"
| "py_add (PFrac a) (PInt b) = PFrac (a + of_int b)"
| "py_add (PFrac a) (PFrac b) = PFrac (a + b)"
| "py_add (PFloat a) y = PFloat (to_double (a + to_double (num_val y)))"
| "py_add x (PFloat b) = PFloat (to_double (to_double (num_val x) + b))"

text \<open>\<^verbatim>\<open>sum(xs)\<close> starts from the \<^verbatim>\<open>int\<close> 0 and adds from the left.\<close>

definition py_sum :: "pynum list \<Rightarrow> pynum" where
  "py_sum xs = foldl py_add (PInt 0) xs"

text \<open>\<^verbatim>\<open>Fraction(n, d)\<close> of two integers raises \<^verbatim>\<open>ZeroDivisionError\<close> for \<open>d = 0\<close>.\<close>

definition frac :: "int \<Rightarrow> int \<Rightarrow> py_error + pynum" where
  "frac n d = (if d = 0 then Inl ZeroDivisionError else Inr (PFrac (of_int n / of_int d)))"

section \<open>Nominal durations (\<^verbatim>\<open>DURATIONS\<close>)\<close>

text \<open>
  The dictionary as the source writes it: the literals \<^verbatim>\<open>1.0\<close> and \<^verbatim>\<open>2.0\<close> are
  \<^verbatim>\<open>float\<close>s, and \<^verbatim>\<open>frac(1/2)\<close>, \<dots>, \<^verbatim>\<open>frac(1/128)\<close> are the \<^verbatim>\<open>Fraction\<close>s of the doubles
  \<open>1/2\<close>, \<dots>, \<open>1/128\<close>, which are powers of two and therefore exact.
\<close>

definition DURATIONS :: "string \<rightharpoonup> pynum" where
  "DURATIONS =
     [''measure'' \<mapsto> PFloat 1,
      ''breve'' \<mapsto> PFloat 2,
      ''whole'' \<mapsto> PFloat 1,
      ''half'' \<mapsto> PFrac (to_double (1 / 2)),
      ''quarter'' \<mapsto> PFrac (to_double (1 / 4)),
      ''eighth'' \<mapsto> PFrac (to_double (1 / 8)),
      ''16th'' \<mapsto> PFrac (to_double (1 / 16)),
      ''32nd'' \<mapsto> PFrac (to_double (1 / 32)),
      ''64th'' \<mapsto> PFrac (to_double (1 / 64)),
      ''128th'' \<mapsto> PFrac (to_double (1 / 128))]"

section \<open>The note-event walker (\<^verbatim>\<open>Section.__init__\<close>)\<close>

text \<open>
  What the walker reads of a \<^verbatim>\<open>Note\<close> element: the integers of its \<^verbatim>\<open>tpc\<close> and \<^verbatim>\<open>pitch\<close>
  children and, if it has a \<^verbatim>\<open>Spanner\<close> of type \<^verbatim>\<open>Tie\<close>, whether that spanner has a
  \<^verbatim>\<open>prev\<close> and whether it has a \<^verbatim>\<open>next\<close> child.
\<close>

record note_tag =
  tpc_text :: int
  pitch_text :: int
  tie :: "(bool \<times> bool) option"

text \<open>
  The events of a voice, in document order: \<^verbatim>\<open>Tuplet\<close> with the integers of
  \<^verbatim>\<open>normalNotes\<close> and \<^verbatim>\<open>actualNotes\<close>; \<^verbatim>\<open>endTuplet\<close>; \<^verbatim>\<open>Rest\<close> and \<^verbatim>\<open>Chord\<close> with the
  text of \<^verbatim>\<open>durationType\<close> and the integer of \<^verbatim>\<open>dots\<close>, if present; a \<^verbatim>\<open>Chord\<close> also with
  the name of its grace tag, if any, the subtype of its \<^verbatim>\<open>Articulation\<close>, if any, and its
  notes.
\<close>

datatype event =
    Tuplet int int
  | EndTuplet
  | Rest string "int option"
  | Chord string "int option" "string option" "string option" "note_tag list"

text \<open>One row of a section's note list; \<open>None\<close> is \<^verbatim>\<open>NaN\<close>.\<close>

record note_row =
  row_mc :: int
  row_mn :: int
  row_onset :: pynum
  row_duration :: pynum
  row_gracenote :: "string option"
  row_nominal_duration :: pynum
  row_scalar :: pynum
  row_tied :: "int option"
  row_tpc :: int
  row_midi :: int
  row_staff :: int
  row_voice :: int
  row_volta :: "int option"
  row_articulation :: "string option"

text \<open>
  What a voice inherits from its measure: measure count, measure number and volta of the
  measure, the numbers of staff and voice, and whether \<^verbatim>\<open>'articulation'\<close> is among the
  score features.
\<close>

record voice_context =
  ctx_mc :: int
  ctx_mn :: int
  ctx_staff :: int
  ctx_voice :: int
  ctx_volta :: "int option"
  ctx_articulation :: bool

text \<open>
  The variables of the loop over the events of one voice. The head of \<open>scalar_stack\<close> is
  the value pushed last; \<open>df_vals\<close> holds the rows emitted so far, in order.
\<close>

record walk_state =
  pointer :: pynum
  scalar :: pynum
  scalar_stack :: "pynum list"
  df_vals :: "note_row list"

definition initial_state :: walk_state where
  "initial_state = \<lparr>pointer = PFrac 0, scalar = PInt 1, scalar_stack = [], df_vals = []\<rparr>"

text \<open>
  \<^verbatim>\<open>sum([frac(1/2) ** i for i in range(int(dots.string)+1)]) * scalar if dots else scalar\<close>
\<close>

definition dotscalar_of :: "int option \<Rightarrow> pynum \<Rightarrow> pynum" where
  "dotscalar_of dots sc =
     (case dots of
        None \<Rightarrow> sc
      | Some d \<Rightarrow>
          py_mul (py_sum (map (\<lambda>i. PFrac (to_double (1 / 2) ^ i)) [0..<nat (d + 1)])) sc)"

text \<open>
  Lines 639 to 642: nominal duration, dot scalar and duration of a \<^verbatim>\<open>Chord\<close> or
  \<^verbatim>\<open>Rest\<close>. A duration type that is no key of \<^verbatim>\<open>DURATIONS\<close> raises \<^verbatim>\<open>KeyError\<close>.
\<close>

definition event_duration ::
  "string \<Rightarrow> int option \<Rightarrow> pynum \<Rightarrow> py_error + (pynum \<times> pynum \<times> pynum)" where
  "event_duration durationType dots sc =
     (case DURATIONS durationType of
        None \<Rightarrow> Inl KeyError
      | Some nominal_duration \<Rightarrow>
          (let dotscalar = dotscalar_of dots sc;
               duration = py_mul nominal_duration dotscalar
           in Inr (nominal_duration, dotscalar, duration)))"

text \<open>
  \<^verbatim>\<open>t = -1 if tie.find('prev') else 0\<close>, \<^verbatim>\<open>t += 1 if tie.find('next') else 0\<close>; \<^verbatim>\<open>NaN\<close>
  without a tie.
\<close>

definition tied_of :: "(bool \<times> bool) option \<Rightarrow> int option" where
  "tied_of t =
     (case t of
        None \<Rightarrow> None
      | Some (prev, nxt) \<Rightarrow> Some ((if prev then - 1 else 0) + (if nxt then 1 else 0)))"

text \<open>The row of one \<^verbatim>\<open>Note\<close> of a chord (\<^verbatim>\<open>get_feature_value\<close>).\<close>

definition note_row_of ::
  "voice_context \<Rightarrow> pynum \<Rightarrow> pynum \<Rightarrow> pynum \<Rightarrow> pynum \<Rightarrow> string option \<Rightarrow> string option
     \<Rightarrow> note_tag \<Rightarrow> note_row" where
  "note_row_of ctx ptr nominal_duration dotscalar duration grace articulation note =
     \<lparr>row_mc = ctx_mc ctx,
      row_mn = ctx_mn ctx,
      row_onset = ptr,
      row_duration = (if grace = None then duration else PInt 0),
      row_gracenote = grace,
      row_nominal_duration = nominal_duration,
      row_scalar = dotscalar,
      row_tied = tied_of (tie note),
      row_tpc = tpc_text note - 14,
      row_midi = pitch_text note,
      row_staff = ctx_staff ctx,
      row_voice = ctx_voice ctx,
      row_volta = ctx_volta ctx,
      row_articulation = (if ctx_articulation ctx then articulation else None)\<rparr>"

text \<open>
  One turn of the loop over the events (lines 633 to 698). \<^verbatim>\<open>scalar_stack.pop()\<close> on an
  empty stack raises \<^verbatim>\<open>IndexError\<close>. The statement \<^verbatim>\<open>pointer += duration\<close> belongs to the
  branch of \<^verbatim>\<open>Chord\<close>: a \<^verbatim>\<open>Rest\<close> computes its duration and changes nothing.
\<close>

fun walk_event :: "voice_context \<Rightarrow> walk_state \<Rightarrow> event \<Rightarrow> py_error + walk_state" where
  "walk_event ctx st (Tuplet normalNotes actualNotes) =
     ebind (frac normalNotes actualNotes) (\<lambda>r.
       Inr (st\<lparr>scalar_stack := scalar st # scalar_stack st, scalar := py_mul (scalar st) r\<rparr>))"
| "walk_event ctx st EndTuplet =
     (case scalar_stack st of
        [] \<Rightarrow> Inl IndexError
      | s # rest \<Rightarrow> Inr (st\<lparr>scalar := s, scalar_stack := rest\<rparr>))"
| "walk_event ctx st (Rest durationType dots) =
     ebind (event_duration durationType dots (scalar st)) (\<lambda>(nominal_duration, dotscalar, duration).
       Inr st)"
| "walk_event ctx st (Chord durationType dots grace articulation notes) =
     ebind (event_duration durationType dots (scalar st)) (\<lambda>(nominal_duration, dotscalar, duration).
       Inr (st\<lparr>df_vals := df_vals st
                    @ map (note_row_of ctx (pointer st) nominal_duration dotscalar duration
                             grace articulation) notes,
                 pointer := (if grace = None then py_add (pointer st) duration
                             else pointer st)\<rparr>))"

text \<open>The loop over the events of a voice, from a given state.\<close>

fun walk_events :: "voice_context \<Rightarrow> walk_state \<Rightarrow> event list \<Rightarrow> py_error + walk_state" where
  "walk_events ctx st [] = Inr st"
| "walk_events ctx st (ev # evs) =
     (case walk_event ctx st ev of
        Inl e \<Rightarrow> Inl e
      | Inr st' \<Rightarrow> walk_events ctx st' evs)"

definition walk_voice :: "voice_context \<Rightarrow> event list \<Rightarrow> py_error + walk_state" where
  "walk_voice ctx evs = walk_events ctx initial_state evs"

section \<open>The note table of \<^verbatim>\<open>Score.get_notes\<close>\<close>

text \<open>A cell of a pandas table: \<^verbatim>\<open>NaN\<close>, an integer, a string or a number.\<close>

datatype cell = NaN | IntC int | StrC string | NumC pynum

text \<open>
  The columns of a section's note list: the thirteen features of \<^verbatim>\<open>Section.__init__\<close>,
  and \<^verbatim>\<open>articulation\<close> when it is among the score features.
\<close>

definition base_columns :: "bool \<Rightarrow> string list" where
  "base_columns with_articulation =
     [''mc'', ''mn'', ''onset'', ''duration'', ''gracenote'', ''nominal_duration'', ''scalar'',
      ''tied'', ''tpc'', ''midi'', ''staff'', ''voice'', ''volta'']
     @ (if with_articulation then [''articulation''] else [])"

definition opt_cell :: "('a \<Rightarrow> cell) \<Rightarrow> 'a option \<Rightarrow> cell" where
  "opt_cell f x = (case x of None \<Rightarrow> NaN | Some v \<Rightarrow> f v)"

definition base_cell :: "string \<Rightarrow> note_row \<Rightarrow> cell option" where
  "base_cell name r =
     map_of
       [(''mc'', IntC (row_mc r)), (''mn'', IntC (row_mn r)), (''onset'', NumC (row_onset r)),
        (''duration'', NumC (row_duration r)), (''gracenote'', opt_cell StrC (row_gracenote r)),
        (''nominal_duration'', NumC (row_nominal_duration r)), (''scalar'', NumC (row_scalar r)),
        (''tied'', opt_cell IntC (row_tied r)), (''tpc'', IntC (row_tpc r)),
        (''midi'', IntC (row_midi r)), (''staff'', IntC (row_staff r)),
        (''voice'', IntC (row_voice r)), (''volta'', opt_cell IntC (row_volta r)),
        (''articulation'', opt_cell StrC (row_articulation r))] name"

text \<open>
  A row of the table \<^verbatim>\<open>df\<close>: its index (the key of the section and the position \<^verbatim>\<open>ix\<close> in
  the section's note list), the note, and the cells of the columns added so far.
\<close>

record frame_row =
  fr_key :: "int \<times> nat option"
  fr_ix :: nat
  fr_note :: note_row
  fr_added :: "(string \<times> cell) list"

text \<open>
  The table: the names of its columns in order, its rows, and whether its index still is
  the two-level index of section and \<^verbatim>\<open>ix\<close>.
\<close>

record frame =
  columns :: "string list"
  frows :: "frame_row list"
  multiindex :: bool

text \<open>
  \<^verbatim>\<open>pd.concat([self.sections[s].notes for s in keys], keys=keys, names=['section', 'ix'])\<close>
  over the selected sections; \<open>sections\<close> holds the note list of every section id, and a
  missing id raises \<^verbatim>\<open>KeyError\<close>.
\<close>

definition section_rows :: "(int \<times> nat option) \<Rightarrow> note_row list \<Rightarrow> frame_row list" where
  "section_rows k notes =
     map (\<lambda>(i, r). \<lparr>fr_key = k, fr_ix = i, fr_note = r, fr_added = []\<rparr>)
         (zip [0..<length notes] notes)"

fun concat_sections ::
  "note_row list list \<Rightarrow> (int \<times> nat option) list \<Rightarrow> py_error + frame_row list" where
  "concat_sections sections [] = Inr []"
| "concat_sections sections (k # ks) =
     (if 0 \<le> fst k \<and> fst k < int (length sections)
      then ebind (concat_sections sections ks) (\<lambda>rest.
             Inr (section_rows k (sections ! nat (fst k)) @ rest))
      else Inl KeyError)"

text \<open>
  The selectors of the keyword arguments: an \<^verbatim>\<open>int\<close>, a \<^verbatim>\<open>str\<close>, a \<^verbatim>\<open>bool\<close>, or anything
  else (a tuple, a collection, a fraction, \<dots>).
\<close>

datatype 's selector = SelInt int | SelStr string | SelBool bool | SelOther 's

definition available_features :: "string list" where
  "available_features = [''octaves'', ''note_names'', ''beats'', ''pcs'', ''n'']"

text \<open>
  Lines 1221 to 1229: the dictionary \<^verbatim>\<open>features\<close>. The loop over the keyword arguments
  reads the name of each argument and never its value.
\<close>

fun activate_loop ::
  "string list \<Rightarrow> (string \<rightharpoonup> bool) \<times> log \<Rightarrow> (string \<times> 's selector) list
     \<Rightarrow> (string \<rightharpoonup> bool) \<times> log" where
  "activate_loop cols (features, lg) [] = (features, lg)"
| "activate_loop cols (features, lg) ((feature, val) # kwargs) =
     (if feature \<notin> set cols
      then activate_loop cols
             (features(feature \<mapsto> True),
              lg @ (if feature \<notin> dom features
                    then [(Warning, ''not part of the note features'')] else []))
             kwargs
      else activate_loop cols (features, lg) kwargs)"

definition activate_features ::
  "string list \<Rightarrow> 'b option \<Rightarrow> (string \<times> 's selector) list \<Rightarrow> (string \<rightharpoonup> bool) \<times> log" where
  "activate_features cols beatsize kwargs =
     (let features0 = map_of (map (\<lambda>f. (f, False)) available_features);
          features1 = (if beatsize \<noteq> None then features0(''beats'' \<mapsto> True) else features0)
      in activate_loop cols (features1, []) kwargs)"

text \<open>
  \<^verbatim>\<open>df[name] = cells\<close>: a new column goes to the right of the table; a row without a cell
  gets \<^verbatim>\<open>NaN\<close>.
\<close>

definition add_column :: "string \<Rightarrow> cell list \<Rightarrow> frame \<Rightarrow> frame" where
  "add_column name cells df =
     df\<lparr>columns := (if name \<in> set (columns df) then columns df else columns df @ [name]),
        frows := map (\<lambda>(i, r). r\<lparr>fr_added := AList.update name
                                                (if i < length cells then cells ! i else NaN)
                                                (fr_added r)\<rparr>)
                     (zip [0..<length (frows df)] (frows df))\<rparr>"

text \<open>\<^verbatim>\<open>[f(x) for x in xs]\<close> for an \<open>f\<close> that may raise.\<close>

fun emap :: "('a \<Rightarrow> py_error + 'b) \<Rightarrow> 'a list \<Rightarrow> py_error + 'b list" where
  "emap f [] = Inr []"
| "emap f (x # xs) = ebind (f x) (\<lambda>y. ebind (emap f xs) (\<lambda>ys. Inr (y # ys)))"

text \<open>
  Lines 1231 to 1272: the feature columns, in the order of the source. The computation of
  the \<^verbatim>\<open>beats\<close> column from \<^verbatim>\<open>beatsize\<close>, the time signatures and the offsets of the
  measures is the parameter \<open>beats\<close> of the embedding. The feature \<^verbatim>\<open>n\<close> turns the index
  level \<^verbatim>\<open>ix\<close> into a first column named \<^verbatim>\<open>n\<close>.
\<close>

definition feature_on :: "(string \<rightharpoonup> bool) \<Rightarrow> string \<Rightarrow> py_error + bool" where
  "feature_on features f = (case features f of None \<Rightarrow> Inl KeyError | Some b \<Rightarrow> Inr b)"

definition compute_feature_columns ::
  "('b option \<Rightarrow> frame \<Rightarrow> py_error + cell list) \<Rightarrow> 'b option \<Rightarrow> (string \<rightharpoonup> bool) \<Rightarrow> frame
     \<Rightarrow> py_error + frame" where
  "compute_feature_columns beats beatsize features df0 =
     ebind (feature_on features ''octaves'') (\<lambda>octaves.
     let df1 = (if octaves
                then add_column ''octaves''
                       (map (\<lambda>r. IntC (row_midi (fr_note r) div 12 - 1)) (frows df0)) df0
                else df0) in
     ebind (feature_on features ''note_names'') (\<lambda>note_names.
     ebind (if note_names
            then ebind (emap (\<lambda>r. spell_tpc (row_tpc (fr_note r))) (frows df1)) (\<lambda>names.
                   Inr (add_column ''note_names'' (map StrC names) df1))
            else Inr df1) (\<lambda>df2.
     ebind (feature_on features ''beats'') (\<lambda>with_beats.
     ebind (if with_beats
            then ebind (beats beatsize df2) (\<lambda>cells. Inr (add_column ''beats'' cells df2))
            else Inr df2) (\<lambda>df3.
     ebind (feature_on features ''pcs'') (\<lambda>pcs.
     let df4 = (if pcs
                then add_column ''pcs''
                       (map (\<lambda>r. IntC (row_midi (fr_note r) mod 12)) (frows df3)) df3
                else df3) in
     ebind (feature_on features ''n'') (\<lambda>n.
     Inr (if n
          then df4\<lparr>columns := ''n'' # columns df4,
                   frows := map (\<lambda>r. r\<lparr>fr_added := AList.update ''n'' (IntC (int (fr_ix r)))
                                                        (fr_added r)\<rparr>) (frows df4)\<rparr>
          else df4))))))))"

text \<open>The cell of a row in a column; \<^verbatim>\<open>df[feature]\<close> raises \<^verbatim>\<open>KeyError\<close> without the column.\<close>

definition row_cell :: "string \<Rightarrow> frame_row \<Rightarrow> cell" where
  "row_cell name r =
     (case map_of (fr_added r) name of
        Some c \<Rightarrow> c
      | None \<Rightarrow> (case base_cell name (fr_note r) of Some c \<Rightarrow> c | None \<Rightarrow> NaN))"

definition get_column :: "frame \<Rightarrow> string \<Rightarrow> py_error + cell list" where
  "get_column df name =
     (if name \<in> set (columns df) then Inr (map (row_cell name) (frows df)) else Inl KeyError)"

text \<open>\<^verbatim>\<open>df[sel]\<close> with a boolean mask \<open>sel\<close>.\<close>

definition select_rows :: "bool list \<Rightarrow> frame \<Rightarrow> frame" where
  "select_rows sel df = df\<lparr>frows := map fst (filter snd (zip (frows df) sel))\<rparr>"

text \<open>
  Lines 1275 to 1299: one keyword argument as a filter. A \<^verbatim>\<open>bool\<close> selector that is
  \<^verbatim>\<open>True\<close> keeps the rows whose cell is not \<^verbatim>\<open>NaN\<close> (for \<^verbatim>\<open>tied\<close>: whose cell is 0 or 1);
  one that is \<^verbatim>\<open>False\<close> is skipped by \<^verbatim>\<open>continue\<close>. The masks that pandas computes for
  the other selectors (comparison with a value, range, membership) and the exception of a
  failing comparison are the parameter \<open>masks\<close> of the embedding.
\<close>

definition apply_filter ::
  "(frame \<Rightarrow> string \<Rightarrow> 's selector \<Rightarrow> py_error + bool list) \<Rightarrow> frame \<Rightarrow> string \<times> 's selector
     \<Rightarrow> py_error + frame" where
  "apply_filter masks df kw =
     (case kw of
        (feature, SelBool selector) \<Rightarrow>
          if selector
          then (if feature = ''tied''
                then ebind (get_column df ''tied'') (\<lambda>cs.
                       Inr (select_rows (map (\<lambda>c. c = IntC 0 \<or> c = IntC 1) cs) df))
                else ebind (get_column df feature) (\<lambda>cs.
                       Inr (select_rows (map (\<lambda>c. c \<noteq> NaN) cs) df)))
          else Inr df
      | (feature, selector) \<Rightarrow>
          ebind (masks df feature selector) (\<lambda>sel. Inr (select_rows sel df)))"

fun apply_filters ::
  "(frame \<Rightarrow> string \<Rightarrow> 's selector \<Rightarrow> py_error + bool list) \<Rightarrow> frame
     \<Rightarrow> (string \<times> 's selector) list \<Rightarrow> py_error + frame" where
  "apply_filters masks df [] = Inr df"
| "apply_filters masks df (kw # kwargs) =
     ebind (apply_filter masks df kw) (\<lambda>df'. apply_filters masks df' kwargs)"

text \<open>Lines 1301 to 1309: the column \<^verbatim>\<open>n\<close> is dropped and a single index is a fresh range.\<close>

definition postprocess :: "bool \<Rightarrow> frame \<Rightarrow> frame \<times> log" where
  "postprocess multi df =
     (let lg = (if length (frows df) = 0 then [(Info, ''No notes exist for this selection.'')]
                else []);
          df1 = (if ''n'' \<in> set (columns df)
                 then df\<lparr>columns := removeAll ''n'' (columns df),
                         frows := map (\<lambda>r. r\<lparr>fr_added := AList.delete ''n'' (fr_added r)\<rparr>)
                                      (frows df)\<rparr>
                 else df);
          df2 = (if multi then df1 else df1\<lparr>multiindex := False\<rparr>)
      in (df2, lg))"

text \<open>
  \<^verbatim>\<open>Score.get_notes\<close>: the sections of the score, the \<^verbatim>\<open>section\<close>, \<^verbatim>\<open>multiindex\<close> and
  \<^verbatim>\<open>beatsize\<close> arguments and the keyword arguments in their order. The result is the
  exception raised, or the table returned (\<open>None\<close> for \<^verbatim>\<open>None\<close>) and the messages logged.
\<close>

definition get_notes ::
  "('b option \<Rightarrow> frame \<Rightarrow> py_error + cell list)
     \<Rightarrow> (frame \<Rightarrow> string \<Rightarrow> 's selector \<Rightarrow> py_error + bool list)
     \<Rightarrow> bool \<Rightarrow> note_row list list
     \<Rightarrow> section_arg \<Rightarrow> bool \<Rightarrow> 'b option \<Rightarrow> (string \<times> 's selector) list
     \<Rightarrow> py_error + (frame option \<times> log)" where
  "get_notes beats masks with_articulation sections section multi beatsize kwargs =
     ebind (select_sections (int (length sections)) section) (\<lambda>(keys, lg0).
     case keys of
       None \<Rightarrow> Inr (None, lg0)
     | Some ks \<Rightarrow>
         ebind (concat_sections sections ks) (\<lambda>rws.
         let df = \<lparr>columns = base_columns with_articulation, frows = rws, multiindex = True\<rparr>;
             (features, lg1) = activate_features (columns df) beatsize kwargs in
         ebind (compute_feature_columns beats beatsize features df) (\<lambda>df1.
         ebind (apply_filters masks df1 kwargs) (\<lambda>df2.
         let (df3, lg2) = postprocess multi df2 in
         Inr (Some df3, lg0 @ lg1 @ lg2)))))"

section \<open>Repeated spans (\<^verbatim>\<open>compute_repeat_structure\<close>)\<close>

text \<open>
  A row of the argument: the measure count in the index, the \<^verbatim>\<open>repeats\<close> cell and the
  \<^verbatim>\<open>volta\<close> cell. After \<^verbatim>\<open>reset_index()\<close> the row at position \<open>i\<close> has the label \<open>i\<close>,
  which it keeps when rows are filtered out.
\<close>

type_synonym repeat_row = "int \<times> string option \<times> int option"

type_synonym labelled_row = "nat \<times> repeat_row"

definition row_label :: "labelled_row \<Rightarrow> nat" where
  "row_label r = fst r"

definition row_mc_of :: "labelled_row \<Rightarrow> int" where
  "row_mc_of r = fst (snd r)"

definition row_repeats :: "labelled_row \<Rightarrow> string option" where
  "row_repeats r = fst (snd (snd r))"

definition row_volta_of :: "labelled_row \<Rightarrow> int option" where
  "row_volta_of r = snd (snd (snd r))"

text \<open>\<^verbatim>\<open>df = df[df.repeats.notna() | df.volta.notna()]\<close>\<close>

definition considered_rows :: "repeat_row list \<Rightarrow> labelled_row list" where
  "considered_rows rows =
     filter (\<lambda>r. row_repeats r \<noteq> None \<or> row_volta_of r \<noteq> None) (zip [0..<length rows] rows)"

text \<open>
  \<^verbatim>\<open>i = 1\<close>, \<^verbatim>\<open>while i < len(df)-1 and isnan(df.iloc[i,1]): i += 1\<close>
\<close>

function skip_nan_repeats :: "labelled_row list \<Rightarrow> nat \<Rightarrow> nat" where
  "skip_nan_repeats df i =
     (if int i < int (length df) - 1 \<and> row_repeats (df ! i) = None
      then skip_nan_repeats df (i + 1) else i)"
  by pat_completeness auto
termination
  by (relation "measure (\<lambda>(df, i). length df - i)") auto

declare skip_nan_repeats.simps [simp del]

text \<open>
  Lines 270 to 285. The result is \<open>None\<close> where the source returns the empty list at once
  (one row is left), and otherwise the rows that are paired. \<^verbatim>\<open>df.iloc[-1]\<close> and
  \<^verbatim>\<open>df.iloc[0,1]\<close> raise \<^verbatim>\<open>IndexError\<close> on a table without rows, and
  \<^verbatim>\<open>df.drop(index=0)\<close> raises \<^verbatim>\<open>KeyError\<close> when no row has the label 0.
\<close>

definition prepare_repeat_rows :: "repeat_row list \<Rightarrow> py_error + labelled_row list option" where
  "prepare_repeat_rows rows =
     (let df0 = considered_rows rows
      in if df0 = [] then Inl IndexError
         else
           let last_row = last df0;
               df1 = (if row_repeats last_row = Some ''lastMeasure'' \<and> row_volta_of last_row = None
                      then butlast df0 else df0)
           in if length df1 = 1 then Inr None
              else if df1 = [] then Inl IndexError
              else if row_repeats (hd df1) = Some ''firstMeasure''
              then
                let i = skip_nan_repeats df1 1
                in if row_repeats (df1 ! i) = Some ''endRepeat''
                   then Inr (Some ((row_label (hd df1), row_mc_of (hd df1),
                                    Some ''startRepeat'', row_volta_of (hd df1)) # tl df1))
                   else if list_ex (\<lambda>r. row_label r = 0) df1
                   then Inr (Some (filter (\<lambda>r. row_label r \<noteq> 0) df1))
                   else Inl KeyError
              else Inr (Some df1))"

text \<open>
  Lines 288 to 293: the measure counts of the rows marked \<^verbatim>\<open>startRepeat\<close>; the measure
  counts of the rows whose successor is marked \<^verbatim>\<open>startRepeat\<close> (\<^verbatim>\<open>shift(-1)\<close>) and of the
  last row; and \<^verbatim>\<open>zip\<close>, which stops at the end of the shorter list.
\<close>

definition is_startRepeat :: "labelled_row \<Rightarrow> bool" where
  "is_startRepeat r = (row_repeats r = Some ''startRepeat'')"

definition pair_repeat_rows :: "labelled_row list \<Rightarrow> py_error + (int \<times> int) list" where
  "pair_repeat_rows df =
     (if df = [] then Inl IndexError
      else
        let startRepeats = map is_startRepeat df;
            start_mcs = map (row_mc_of \<circ> fst) (filter snd (zip df startRepeats));
            endRepeats = tl startRepeats @ [True];
            end_mcs = map (row_mc_of \<circ> fst) (filter snd (zip df endRepeats))
        in Inr (zip start_mcs end_mcs))"

definition compute_repeat_structure :: "repeat_row list \<Rightarrow> py_error + (int \<times> int) list" where
  "compute_repeat_structure rows =
     ebind (prepare_repeat_rows rows) (\<lambda>prepared.
       case prepared of None \<Rightarrow> Inr [] | Some df \<Rightarrow> pair_repeat_rows df)"

text \<open>
  The pairing in words: a span is open from a \<^verbatim>\<open>startRepeat\<close> at \<open>s\<close>; every further row
  becomes its provisional end; the next \<^verbatim>\<open>startRepeat\<close> closes the span at the row before
  it and opens the next span, and the last row closes the last span.
\<close>

fun close_spans :: "int \<Rightarrow> int \<Rightarrow> labelled_row list \<Rightarrow> (int \<times> int) list" where
  "close_spans s e [] = [(s, e)]"
| "close_spans s e (r # rs) =
     (if is_startRepeat r then (s, e) # close_spans (row_mc_of r) (row_mc_of r) rs
      else close_spans s (row_mc_of r) rs)"

text \<open>
  The measure counts that end a span, read off a list of rows whose predecessor has the
  measure count \<open>e\<close>: used to compare \<^verbatim>\<open>zip\<close> with \<open>close_spans\<close>.
\<close>

fun ends_from :: "int \<Rightarrow> labelled_row list \<Rightarrow> int list" where
  "ends_from e [] = [e]"
| "ends_from e (r # rs) = (if is_startRepeat r then [e] else []) @ ends_from (row_mc_of r) rs"

section \<open>The measure tables of the staves (\<^verbatim>\<open>Score.__init__\<close>)\<close>

text \<open>
  One row of a staff's table \<^verbatim>\<open>mc_info[staff_id]\<close> and of the master table \<^verbatim>\<open>info\<close>:
  the columns \<^verbatim>\<open>cols\<close> of the source, \<open>None\<close> for \<^verbatim>\<open>NaN\<close>. The index of a table is the
  range of its measure counts.
\<close>

record measure_info =
  keysig :: "int option"
  timesig :: "string option"
  act_dur :: "pynum option"
  voices :: "int option"
  repeats :: "string option"
  volta :: "int option"
  barline :: "string option"
  numbering_offset :: "int option"
  dont_count :: "int option"

text \<open>The columns that lines 876 to 885 compare: all but \<^verbatim>\<open>voices\<close>.\<close>

definition compared_columns :: "(measure_info \<Rightarrow> cell) list" where
  "compared_columns =
     [opt_cell IntC \<circ> keysig, opt_cell StrC \<circ> timesig, opt_cell NumC \<circ> act_dur,
      opt_cell StrC \<circ> repeats, opt_cell IntC \<circ> volta, opt_cell StrC \<circ> barline,
      opt_cell IntC \<circ> numbering_offset, opt_cell IntC \<circ> dont_count]"

text \<open>
  \<^verbatim>\<open>nan_eq(a, b)\<close> on two columns: \<^verbatim>\<open>(a == b) | ((a != a) & (b != b))\<close>. pandas compares two
  Series only when they have the same index, and raises \<^verbatim>\<open>ValueError\<close> otherwise; the
  index of a column here is the range of its length.
\<close>

definition nan_eq :: "cell list \<Rightarrow> cell list \<Rightarrow> py_error + bool list" where
  "nan_eq a b =
     (if length a \<noteq> length b then Inl ValueError
      else Inr (map (\<lambda>(x, y). x = y) (zip a b)))"

text \<open>
  Lines 882 to 885 for the column \<open>c1\<close> of the first staff and the column \<open>c\<close> of another:
  \<^verbatim>\<open>c1.equals(c)\<close> holds for two columns of the same length and the same cells; when it
  does not hold, the cells of \<open>c\<close> that differ from \<open>c1\<close> are looked up, and a warning is
  logged if one of them is not \<^verbatim>\<open>NaN\<close>.
\<close>

definition compare_column :: "cell list \<Rightarrow> cell list \<Rightarrow> py_error + log" where
  "compare_column c1 c =
     (if c1 = c then Inr []
      else ebind (nan_eq c1 c) (\<lambda>eq.
             let not_in_c1 = map fst (filter (\<lambda>(x, e). \<not> e) (zip c eq))
             in Inr (if length (filter (\<lambda>x. x \<noteq> NaN) not_in_c1) > 0
                     then [(Warning, ''These values are not included in mc_info[1]'')]
                     else [])))"

text \<open>The loops of lines 876 to 885: every compared column, every staff after the first.\<close>

fun compare_to_first :: "cell list \<Rightarrow> cell list list \<Rightarrow> py_error + log" where
  "compare_to_first c1 [] = Inr []"
| "compare_to_first c1 (c # cs) =
     ebind (compare_column c1 c) (\<lambda>lg. ebind (compare_to_first c1 cs) (\<lambda>lgs. Inr (lg @ lgs)))"

fun compare_staves ::
  "(measure_info \<Rightarrow> cell) list \<Rightarrow> measure_info list list \<Rightarrow> py_error + log" where
  "compare_staves [] tables = Inr []"
| "compare_staves (col # others) tables =
     (case map (map col) tables of
        [] \<Rightarrow> Inl IndexError
      | c1 # cs \<Rightarrow>
          ebind (compare_to_first c1 cs) (\<lambda>lg.
          ebind (compare_staves others tables) (\<lambda>lgs. Inr (lg @ lgs))))"

text \<open>
  Lines 866 to 885 of the constructor, on the tables of the staves in the order of the
  document, each with the id of its staff. Different measure counts log an error and the
  constructor goes on; \<^verbatim>\<open>self.mc_info[1]\<close> raises \<^verbatim>\<open>KeyError\<close> without a staff 1, and
  \<^verbatim>\<open>max\<close> of an empty index raises \<^verbatim>\<open>ValueError\<close>. The result is the exception raised, or
  \<^verbatim>\<open>last_node\<close> and the messages logged.
\<close>

definition check_staves :: "(int \<times> measure_info list) list \<Rightarrow> py_error + (int \<times> log)" where
  "check_staves mc_info =
     (let mcs = set (map (length \<circ> snd) mc_info);
          lg0 = (if card mcs > 1
                 then [(Error, ''Staves have different measure counts.'')] else [])
      in case map_of mc_info 1 of
           None \<Rightarrow> Inl KeyError
         | Some staff1 \<Rightarrow>
             if staff1 = [] then Inl ValueError
             else ebind (compare_staves compared_columns (map snd mc_info)) (\<lambda>lg1.
                    Inr (int (length staff1) - 1, lg0 @ lg1)))"

section \<open>Sections (\<^verbatim>\<open>create_section\<close> and the loop of \<^verbatim>\<open>Score.__init__\<close>)\<close>

text \<open>The rows that \<^verbatim>\<open>compute_repeat_structure(self.info)\<close> reads of the master table.\<close>

definition repeat_rows_of :: "measure_info list \<Rightarrow> repeat_row list" where
  "repeat_rows_of info =
     map (\<lambda>(i, m). (int i, repeats m, volta m)) (zip [0..<length info] info)"

text \<open>\<^verbatim>\<open>self.info.repeats[mc]\<close> raises \<^verbatim>\<open>KeyError\<close> for a measure count outside the table.\<close>

definition info_at :: "measure_info list \<Rightarrow> int \<Rightarrow> py_error + measure_info" where
  "info_at info mc =
     (if 0 \<le> mc \<and> mc < int (length info) then Inr (info ! nat mc) else Inl KeyError)"

text \<open>
  \<^verbatim>\<open>self.info.loc[fro+1:to-1]\<close> with \<^verbatim>\<open>barline.isin(self.separating_barlines)\<close>: the measure
  counts strictly between \<open>fro\<close> and \<open>to\<close>, as far as the table has them, whose barline is
  a separating one.
\<close>

definition split_mcs_of :: "string list \<Rightarrow> measure_info list \<Rightarrow> int \<Rightarrow> int \<Rightarrow> int list" where
  "split_mcs_of separating_barlines info fro to =
     filter (\<lambda>mc. case barline (info ! nat mc) of
                     None \<Rightarrow> False
                   | Some b \<Rightarrow> b \<in> set separating_barlines)
            [max (fro + 1) 0 .. min (to - 1) (int (length info) - 1)]"

text \<open>
  \<^verbatim>\<open>create_section(fro, to, repeated)\<close>, as far as \<^verbatim>\<open>section_structure\<close> goes: the
  inclusive ranges it records, in the order of their ids. With separating barlines the
  ranges are the consecutive pairs of the sorted list \<^verbatim>\<open>bounds\<close>. The exceptions that
  parsing the notes of a section may raise are not part of the embedding; they end the
  constructor, so that there is no score to speak of.
\<close>

definition create_section ::
  "string list \<Rightarrow> measure_info list \<Rightarrow> int \<Rightarrow> int \<Rightarrow> py_error + (int \<times> int) list" where
  "create_section separating_barlines info fro to =
     ebind (info_at info fro) (\<lambda>start_row.
     ebind (info_at info to) (\<lambda>end_row.
     let split_mcs = split_mcs_of separating_barlines info fro to
     in if split_mcs \<noteq> []
        then let bounds = sort ([fro, to] @ split_mcs @ map (\<lambda>i. i + 1) split_mcs)
             in Inr (map (\<lambda>i. (bounds ! (2 * i), bounds ! (2 * i + 1)))
                         [0..<length bounds div 2])
        else Inr [(fro, to)]))"

text \<open>
  The variables of the loop of lines 999 to 1005: \<^verbatim>\<open>last_to\<close>, \<^verbatim>\<open>to\<close> and the ranges
  recorded in \<^verbatim>\<open>section_structure\<close> so far.
\<close>

fun section_loop ::
  "string list \<Rightarrow> measure_info list \<Rightarrow> (int \<times> int) list \<Rightarrow> int \<times> int \<times> (int \<times> int) list
     \<Rightarrow> py_error + (int \<times> int \<times> (int \<times> int) list)" where
  "section_loop seps info [] st = Inr st"
| "section_loop seps info ((fro, to) # pairs) (last_to, to0, secs) =
     ebind (if fro \<noteq> last_to + 1 then create_section seps info (last_to + 1) (fro - 1)
            else Inr []) (\<lambda>unrepeated.
     ebind (create_section seps info fro to) (\<lambda>repeated.
     section_loop seps info pairs (to, to, secs @ unrepeated @ repeated)))"

text \<open>
  \<^verbatim>\<open>self.info.loc[fro:to, 'section'] = s\<close> for every section in the order of the ids: a
  measure count ends up in the last section whose range holds it.
\<close>

definition section_of :: "(int \<times> int) list \<Rightarrow> int \<Rightarrow> nat option" where
  "section_of secs mc =
     foldl (\<lambda>acc (k, (fro, to)). if fro \<le> mc \<and> mc \<le> to then Some k else acc) None
           (zip [0..<length secs] secs)"

text \<open>
  Lines 998 to 1033, as far as \<^verbatim>\<open>section_structure\<close> goes. \<^verbatim>\<open>next(sections)\<close> in line
  1011 raises \<^verbatim>\<open>StopIteration\<close> when no section was created, and \<^verbatim>\<open>mns.iloc[0]\<close> in line
  1032 raises \<^verbatim>\<open>IndexError\<close> for a section that no measure count is assigned to. The
  result is the exception raised, or \<^verbatim>\<open>section_structure\<close> as the list of its ranges in
  the order of the ids. The further exceptions of these lines (in the loop over the volta
  groups and in \<^verbatim>\<open>get_notes\<close>) are not part of the embedding; where they occur, no score
  is constructed.
\<close>

definition build_sections ::
  "string list \<Rightarrow> measure_info list \<Rightarrow> py_error + (int \<times> int) list" where
  "build_sections seps info =
     (let last_node = int (length info) - 1
      in ebind (compute_repeat_structure (repeat_rows_of info)) (\<lambda>repeat_structure.
         ebind (section_loop seps info repeat_structure (- 1, 0, [])) (\<lambda>(last_to, to, secs).
         ebind (if to \<noteq> last_node
                then ebind (create_section seps info (if to > 0 then to + 1 else 0) last_node)
                       (\<lambda>trailing. Inr (secs @ trailing))
                else Inr secs) (\<lambda>section_structure.
         if section_structure = [] then Inl StopIteration
         else if list_ex (\<lambda>k. \<not> list_ex (\<lambda>mc. section_of section_structure mc = Some k)
                                          [0 .. last_node])
                         [0..<length section_structure]
         then Inl IndexError
         else Inr section_structure))))"

text \<open>
  The ranges between separating barlines in words: a range ends at each separating
  barline and the next range begins one measure later.
\<close>

fun spans_between :: "int \<Rightarrow> int list \<Rightarrow> int \<Rightarrow> (int \<times> int) list" where
  "spans_between fro [] to = [(fro, to)]"
| "spans_between fro (b # bs) to = (fro, b) # spans_between (b + 1) bs to"

text \<open>The sorted list \<^verbatim>\<open>bounds\<close>, written out.\<close>

fun bounds_between :: "int \<Rightarrow> int list \<Rightarrow> int \<Rightarrow> int list" where
  "bounds_between fro [] to = [fro, to]"
| "bounds_between fro (b # bs) to = fro # b # bounds_between (b + 1) bs to"

text \<open>The measure counts of a list of inclusive ranges, range after range.\<close>

definition covered :: "(int \<times> int) list \<Rightarrow> int list" where
  "covered secs = concat (map (\<lambda>(fro, to). [fro..to]) secs)"

text \<open>
  Separating barlines \<open>bs\<close> that split the range from \<open>fro\<close> to \<open>to\<close>: ascending, none
  before \<open>fro\<close> and all before \<open>to\<close>.
\<close>

definition splits_ok :: "int \<Rightarrow> int list \<Rightarrow> int \<Rightarrow> bool" where
  "splits_ok fro bs to = (sorted_wrt (<) bs \<and> (\<forall>b \<in> set bs. fro \<le> b \<and> b < to) \<and> fro \<le> to)"

text \<open>
  The rows of a table of \<open>n\<close> measures in the order of their measure counts, each with
  its label as measure count.
\<close>

definition rows_ok :: "nat \<Rightarrow> labelled_row list \<Rightarrow> bool" where
  "rows_ok n df =
     (sorted_wrt (<) (map row_mc_of df)
      \<and> (\<forall>r \<in> set df. row_mc_of r = int (row_label r) \<and> row_label r < n))"

text \<open>
  Spans in document order after the measure count \<open>lt\<close>: every span begins after the end
  of the one before it and does not end before it begins.
\<close>

fun pairs_chain :: "int \<Rightarrow> (int \<times> int) list \<Rightarrow> bool" where
  "pairs_chain lt [] = True"
| "pairs_chain lt ((s, e) # ps) = (lt < s \<and> s \<le> e \<and> pairs_chain e ps)"

section \<open>Theorems\<close>

subsection \<open>Spelling of tonal pitch classes\<close>

lemma mod7_cases:
  fixes t :: int
  obtains "t mod 7 = 0" | "t mod 7 = 1" | "t mod 7 = 2" | "t mod 7 = 3"
        | "t mod 7 = 4" | "t mod 7 = 5" | "t mod 7 = 6"
proof -
  have "0 \<le> t mod 7" "t mod 7 < 7" by simp_all
  then show ?thesis using that by arith
qed

text \<open>
  Claim C9: for every integer \<open>tpc\<close>, \<^verbatim>\<open>spell_tpc\<close> returns the letter at position
  \<open>(tpc + 1) mod 7\<close> of F, C, G, D, A, E, B, followed by \<open>(tpc + 1) div 7\<close> sharp signs
  when that quotient is non-negative and by its absolute value many flat signs
  otherwise. No key of \<^verbatim>\<open>PITCH_NAMES\<close> is ever missing.
\<close>

theorem spell_tpc_name_and_accidentals:
  "spell_tpc tpc =
     Inr ([''F'', ''C'', ''G'', ''D'', ''A'', ''E'', ''B''] ! nat ((tpc + 1) mod 7)
          @ (if 0 \<le> (tpc + 1) div 7
             then replicate (nat ((tpc + 1) div 7)) (CHR ''#'')
             else replicate (nat \<bar>(tpc + 1) div 7\<bar>) (CHR ''b'')))"
proof -
  have sgn: "(0 \<le> (tpc + 1) div 7) = (\<not> tpc + 1 < 0)"
    by (simp add: pos_imp_zdiv_nonneg_iff not_less)
  show ?thesis
    by (rule mod7_cases [of "tpc + 1"])
       (simp_all add: spell_tpc_def PITCH_NAMES_def Let_def sgn)
qed

subsection \<open>Measure numbers\<close>

lemma ffill_from_length [simp]: "length (ffill_from p xs) = length xs"
  by (induction p xs rule: ffill_from.induct) auto

lemma ffill_from_nth:
  "i < length xs \<Longrightarrow>
   ffill_from p xs ! i = (case xs ! i of Some v \<Rightarrow> Some v
                          | None \<Rightarrow> (case i of 0 \<Rightarrow> p | Suc j \<Rightarrow> ffill_from p xs ! j))"
proof (induction p xs arbitrary: i rule: ffill_from.induct)
  case (1 prev)
  then show ?case by simp
next
  case (2 prev xs)
  then show ?case by (cases i) (auto split: option.splits nat.splits)
next
  case (3 prev v xs)
  show ?case
  proof (cases i)
    case 0
    then show ?thesis by simp
  next
    case (Suc j)
    then have j: "j < length xs" using 3 by simp
    show ?thesis
    proof (cases j)
      case 0
      then show ?thesis using Suc j 3(1) [of 0] by (simp split: option.splits)
    next
      case (Suc k)
      then show ?thesis using \<open>i = Suc j\<close> j 3(1) [of j] by (simp split: option.splits)
    qed
  qed
qed

lemma cumsum_from_length [simp]: "length (cumsum_from a xs) = length xs"
  by (induction a xs rule: cumsum_from.induct) auto


lemma cumsum_from_nth:
  "i < length xs \<Longrightarrow>
   cumsum_from a xs ! i =
     (case xs ! i of None \<Rightarrow> None | Some v \<Rightarrow> Some (a + present_sum (take (Suc i) xs)))"
proof (induction a xs arbitrary: i rule: cumsum_from.induct)
  case (1 acc)
  then show ?case by simp
next
  case (2 acc xs)
  then show ?case by (cases i) (auto simp: present_sum_def split: option.splits)
next
  case (3 acc v xs)
  then show ?case by (cases i) (auto simp: present_sum_def split: option.splits)
qed

lemma filter_upt_nth:
  assumes "i < n" "P i"
  shows "filter P [0..<n] ! length (filter P [0..<i]) = i"
proof -
  have "[0..<n] = [0..<i] @ i # [Suc i..<n]"
    using assms(1) by (metis le_add_diff_inverse less_imp_le_nat upt_add_eq_append upt_conv_Cons zero_le)
  then have "filter P [0..<n] = filter P [0..<i] @ i # filter P [Suc i..<n]"
    using assms(2) by simp
  then show ?thesis by simp
qed

lemma filter_upt_length_less:
  assumes "i < n" "P i"
  shows "length (filter P [0..<i]) < length (filter P [0..<n])"
proof -
  have "[0..<n] = [0..<i] @ i # [Suc i..<n]"
    using assms(1) by (metis le_add_diff_inverse less_imp_le_nat upt_add_eq_append upt_conv_Cons zero_le)
  then have "filter P [0..<n] = filter P [0..<i] @ i # filter P [Suc i..<n]"
    using assms(2) by simp
  then show ?thesis by simp
qed

lemma filter_index_take:
  "i \<le> length xs \<Longrightarrow>
   length (filter (\<lambda>j. P (xs ! j)) [0..<i]) = length (filter P (take i xs))"
proof (induction i)
  case 0
  then show ?case by simp
next
  case (Suc i)
  then show ?case by (simp add: take_Suc_conv_app_nth)
qed

lemma number_regular_nth:
  assumes "i < length ex"
  shows "number_regular ex ! i =
     (if ex ! i = None then Some (int (length (filter (\<lambda>c. c = None) (take (Suc i) ex)))) else None)"
proof -
  let ?P = "\<lambda>j. ex ! j = None"
  let ?rix = "filter ?P [0..<length ex]"
  let ?vals = "map int [1..<1 + length ?rix]"
  have len: "length ?rix = length ?vals"
    by (simp only: length_map length_upt add_diff_cancel_left')
  have nth: "number_regular ex ! i = map_of (zip ?rix ?vals) i"
    using assms by (simp add: number_regular_def regular_ix_def Let_def)
  show ?thesis
  proof (cases "ex ! i = None")
    case False
    then have "i \<notin> set ?rix" by simp
    then have "map_of (zip ?rix ?vals) i = None"
      using map_of_zip_is_None [OF len] by blast
    with nth False show ?thesis by simp
  next
    case True
    let ?k = "length (filter ?P [0..<i])"
    have k: "?k < length ?rix" using filter_upt_length_less [of i "length ex" ?P] assms True by simp
    have at: "?rix ! ?k = i" using filter_upt_nth [of i "length ex" ?P] assms True by simp
    have "[1..<1 + length ?rix] ! ?k = 1 + ?k"
      using k by (intro nth_upt) simp
    then have vk: "?vals ! ?k = int (Suc ?k)"
      using k by (simp only: nth_map length_upt add_diff_cancel_left' plus_1_eq_Suc)
    have "?k < length ?vals" using k len by (simp only:)
    then have "map_of (zip ?rix ?vals) (?rix ! ?k) = Some (?vals ! ?k)"
      by (rule map_of_zip_nth [OF len distinct_filter [OF distinct_upt]])
    then have "map_of (zip ?rix ?vals) i = Some (int (Suc ?k))"
      by (simp only: at vk)
    moreover have "Suc ?k = length (filter (\<lambda>c. c = None) (take (Suc i) ex))"
      using filter_index_take [of "Suc i" ex "\<lambda>c. c = None"] assms True by simp
    ultimately show ?thesis using nth True by simp
  qed
qed


lemma fill_first_nonempty:
  "xs \<noteq> [] \<Longrightarrow>
   fill_first v xs = Inr (xs[0 := Some (case xs ! 0 of None \<Rightarrow> v | Some w \<Rightarrow> w)])"
  by (cases xs) (auto simp: fill_first_def split: option.splits)

lemma ffill_nth_0:
  "xs \<noteq> [] \<Longrightarrow> ffill (xs[0 := Some a]) ! 0 = Some a"
  by (cases xs) (simp_all add: ffill_def)

lemma ffill_nth_Suc:
  "Suc i < length xs \<Longrightarrow>
   ffill (xs[0 := Some a]) ! Suc i =
     (case xs ! Suc i of None \<Rightarrow> ffill (xs[0 := Some a]) ! i | Some v \<Rightarrow> Some v)"
  using ffill_from_nth [of "Suc i" "xs[0 := Some a]" None]
  by (simp add: ffill_def split: option.splits)

lemma counted_take_Suc:
  "Suc i < length ex \<Longrightarrow>
   length (filter (\<lambda>c. c = None) (take (Suc (Suc i)) ex)) =
   length (filter (\<lambda>c. c = None) (take (Suc i) ex)) + (if ex ! Suc i = None then 1 else 0)"
  by (simp add: take_Suc_conv_app_nth [of "Suc i"])

lemma ffill_numbering_nth:
  assumes "i < length ex"
  shows "ffill ((number_regular ex)[0 := Some (case number_regular ex ! 0 of None \<Rightarrow> 0 | Some w \<Rightarrow> w)]) ! i
         = Some (int (length (filter (\<lambda>c. c = None) (take (Suc i) ex))))"
  using assms
proof (induction i)
  case 0
  then have ne: "number_regular ex \<noteq> []" by (auto simp: number_regular_def Let_def)
  obtain c cs where ex: "ex = c # cs" using 0 by (cases ex) auto
  have "(case number_regular ex ! 0 of None \<Rightarrow> 0 | Some w \<Rightarrow> w)
        = int (length (filter (\<lambda>c. c = None) (take (Suc 0) ex)))"
    unfolding number_regular_nth [OF 0] by (simp add: ex)
  then show ?case by (simp only: ffill_nth_0 [OF ne])
next
  case (Suc i)
  have len: "Suc i < length (number_regular ex)"
    using Suc.prems by (simp add: number_regular_def Let_def)
  have ih: "ffill ((number_regular ex)[0 := Some (case number_regular ex ! 0 of None \<Rightarrow> 0 | Some w \<Rightarrow> w)]) ! i
         = Some (int (length (filter (\<lambda>c. c = None) (take (Suc i) ex))))"
    using Suc by simp
  show ?case
    unfolding ffill_nth_Suc [OF len] number_regular_nth [OF Suc.prems] ih
    using counted_take_Suc [OF Suc.prems] by simp
qed

lemma present_sum_take_Suc:
  "Suc i < length xs \<Longrightarrow>
   present_sum (take (Suc (Suc i)) xs) =
   present_sum (take (Suc i) xs) + (case xs ! Suc i of None \<Rightarrow> 0 | Some d \<Rightarrow> d)"
  by (simp add: take_Suc_conv_app_nth [of "Suc i"] present_sum_def)

lemma cumsum_length [simp]: "length (cumsum xs) = length xs"
  by (simp add: cumsum_def)

lemma present_sum_fill_first:
  "xs \<noteq> [] \<Longrightarrow>
   present_sum (take (Suc i) (xs[0 := Some (case xs ! 0 of None \<Rightarrow> 0 | Some w \<Rightarrow> w)]))
   = present_sum (take (Suc i) xs)"
  by (cases xs) (auto simp: present_sum_def split: option.splits)

lemma ffill_cumsum_nth:
  assumes "i < length offset"
  shows "ffill (cumsum (offset[0 := Some (case offset ! 0 of None \<Rightarrow> 0 | Some w \<Rightarrow> w)])) ! i
         = Some (present_sum (take (Suc i) offset))"
  using assms
proof (induction i)
  case 0
  obtain c cs where off: "offset = c # cs" using 0 by (cases offset) auto
  show ?case using off by (simp add: ffill_def cumsum_def present_sum_def split: option.splits)
next
  case (Suc i)
  define o0 where "o0 = offset[0 := Some (case offset ! 0 of None \<Rightarrow> 0 | Some w \<Rightarrow> w)]"
  have ne: "offset \<noteq> []" using Suc.prems by auto
  have lo: "Suc i < length o0" using Suc.prems by (simp add: o0_def)
  have nth: "o0 ! Suc i = offset ! Suc i" by (simp add: o0_def)
  have ps: "present_sum (take (Suc (Suc i)) o0) = present_sum (take (Suc (Suc i)) offset)"
    unfolding o0_def by (rule present_sum_fill_first [OF ne])
  have c: "cumsum o0 ! Suc i =
     (case offset ! Suc i of None \<Rightarrow> None | Some v \<Rightarrow> Some (present_sum (take (Suc (Suc i)) offset)))"
    unfolding cumsum_def cumsum_from_nth [OF lo] nth ps by (simp split: option.splits)
  have lc: "Suc i < length (cumsum o0)" using lo by simp
  have f: "ffill (cumsum o0) ! Suc i =
     (case cumsum o0 ! Suc i of None \<Rightarrow> ffill (cumsum o0) ! i | Some v \<Rightarrow> Some v)"
    unfolding ffill_def ffill_from_nth [OF lc, of None] by (simp split: option.splits)
  have ih: "ffill (cumsum o0) ! i = Some (present_sum (take (Suc i) offset))"
    using Suc unfolding o0_def by simp
  show ?case
    unfolding o0_def [symmetric] f c ih
    using present_sum_take_Suc [OF Suc.prems] by (simp split: option.splits)
qed

lemma astype_int_Some: "astype_int (map Some xs) = Inr xs"
  by (induction xs) auto

lemma astype_int_Some_map [simp]:
  "astype_int (map (\<lambda>i. Some (f i)) xs) = Inr (map f xs)"
  "astype_int (map (Some \<circ> f) xs) = Inr (map f xs)"
  using astype_int_Some [of "map f xs"] by (simp_all add: comp_def)

lemma ffill_length [simp]: "length (ffill xs) = length xs"
  by (simp add: ffill_def)

lemma present_sum_None:
  "\<forall>c \<in> set xs. c = None \<Longrightarrow> present_sum xs = 0"
  by (induction xs) (auto simp: present_sum_def)

lemma present_sum_all_None:
  "\<not> list_ex (\<lambda>c. c \<noteq> None) xs \<Longrightarrow> present_sum (take k xs) = 0"
  by (rule present_sum_None) (auto simp: list_ex_iff dest: in_set_takeD)


lemma ebind_Inr [simp]: "ebind (Inr x) f = f x"
  by (simp add: ebind_def)

lemma ebind_Inl [simp]: "ebind (Inl e) f = Inl e"
  by (simp add: ebind_def)

lemma number_regular_length [simp]: "length (number_regular ex) = length ex"
  by (simp add: number_regular_def Let_def)

lemma numbering_filled:
  assumes "ex \<noteq> []"
  shows "ffill ((number_regular ex)[0 := Some (case number_regular ex ! 0 of None \<Rightarrow> 0 | Some w \<Rightarrow> w)])
         = map (\<lambda>i. Some (int (length (filter (\<lambda>c. c = None) (take (Suc i) ex))))) [0..<length ex]"
  by (rule nth_equalityI) (simp_all add: ffill_numbering_nth)

lemma offsets_filled:
  "ffill (cumsum (offset[0 := Some (case offset ! 0 of None \<Rightarrow> 0 | Some w \<Rightarrow> w)]))
   = map (\<lambda>i. Some (present_sum (take (Suc i) offset))) [0..<length offset]"
  by (rule nth_equalityI) (simp_all add: ffill_cumsum_nth)

lemma add_columns_Some:
  "add_columns (map (\<lambda>i. Some (f i)) [0..<n]) (map (\<lambda>i. Some (g i)) [0..<n])
   = map Some (map (\<lambda>i. f i + g i) [0..<n])"
  by (rule nth_equalityI) (simp_all add: add_columns_def)

text \<open>
  Claim C4: on a table without rows \<^verbatim>\<open>compute_mn\<close> raises (the label \<open>0\<close> is missing);
  on every other table, with or without the \<^verbatim>\<open>numbering_offset\<close> column, the measure
  number of row \<open>i\<close> is the number of rows up to and including \<open>i\<close> whose
  \<^verbatim>\<open>dont_count\<close> cell is empty, plus the sum of the \<^verbatim>\<open>numbering_offset\<close> cells up to
  and including \<open>i\<close>. The first summand is what numbering the counted rows 1, 2, \<dots> and
  forward-filling gives: a counted row gets its rank among the counted rows, an excluded
  row repeats the number before it, and an excluded first row gets 0. The second summand
  is the forward-filled cumulative sum of the offsets, with the rows before the first
  offset counting as 0; it is 0 when no offset is present.
\<close>

theorem compute_mn_numbers:
  "compute_mn df =
     (if excluded_of df = [] then Inl LookupError
      else Inr (map (\<lambda>i. int (length (filter (\<lambda>c. c = None) (take (Suc i) (excluded_of df))))
                        + (case offset_of df of
                             None \<Rightarrow> 0
                           | Some offset \<Rightarrow> present_sum (take (Suc i) offset)))
                 [0..<length (excluded_of df)]))"
proof (cases "excluded_of df = []")
  case True
  then show ?thesis
    by (simp add: compute_mn_def number_regular_def regular_ix_def fill_first_def)
next
  case False
  let ?ex = "excluded_of df"
  let ?cnt = "\<lambda>i. int (length (filter (\<lambda>c. c = None) (take (Suc i) ?ex)))"
  have nr: "number_regular ?ex \<noteq> []" using False by (simp add: number_regular_def Let_def)
  have base: "ebind (fill_first 0 (number_regular ?ex)) F
              = F ((number_regular ?ex)[0 := Some (case number_regular ?ex ! 0 of None \<Rightarrow> 0 | Some w \<Rightarrow> w)])"
    for F :: "int option list \<Rightarrow> py_error + int list"
    by (simp add: fill_first_nonempty [OF nr])
  show ?thesis
  proof (cases df)
    case (OneColumn ex)
    then have "compute_mn df = astype_int (map Some (map ?cnt [0..<length ?ex]))"
      unfolding compute_mn_def base Let_def numbering_filled [OF False]
      by (simp add: offset_of_def comp_def)
    then show ?thesis using False OneColumn by (simp add: astype_int_Some offset_of_def)
  next
    case (TwoColumns rows)
    let ?off = "map snd rows"
    have off: "offset_of df = Some ?off" and len: "length ?off = length ?ex"
      using TwoColumns by (simp_all add: offset_of_def excluded_of_def)
    have one: "?off \<noteq> []" using False len by auto
    have len': "length rows = length ?ex" using len by simp
    show ?thesis
    proof (cases "list_ex (\<lambda>c. c \<noteq> None) ?off")
      case True
      have "compute_mn df =
            astype_int (add_columns (map (\<lambda>i. Some (?cnt i)) [0..<length ?ex])
                                    (map (\<lambda>i. Some (present_sum (take (Suc i) ?off))) [0..<length ?ex]))"
        unfolding compute_mn_def base Let_def numbering_filled [OF False] off
        using True by (simp add: fill_first_nonempty [OF one] offsets_filled len')
      then show ?thesis
        unfolding add_columns_Some astype_int_Some using False off by simp
    next
      case no: False
      have "compute_mn df = astype_int (map Some (map ?cnt [0..<length ?ex]))"
        unfolding compute_mn_def base Let_def numbering_filled [OF False] off
        using no by (simp add: comp_def)
      then show ?thesis
        using False off present_sum_all_None [OF no] by (simp add: astype_int_Some)
    qed
  qed
qed

subsection \<open>Length of a volta\<close>

text \<open>
  Claim C6 as stated fails: when \<^verbatim>\<open>next/location\<close> holds a \<^verbatim>\<open>fractions\<close> element and
  no \<^verbatim>\<open>measures\<close> element, the extracted length is 1, not 0, and nothing is logged.
\<close>

theorem volta_length_counterexample:
  "feature_from_node_Volta \<lparr>has_fractions = True, measures = None\<rparr> = Inr (1, [])
   \<and> fst (projr (feature_from_node_Volta \<lparr>has_fractions = True, measures = None\<rparr>)) \<noteq> 0"
  by (simp add: feature_from_node_Volta_def)

text \<open>
  Claim C6, amended: the extracted length is 1 if a \<^verbatim>\<open>fractions\<close> element is present and
  0 otherwise, plus the integer of the \<^verbatim>\<open>measures\<close> child if there is one; the value is
  returned in every case, and exactly the value 0 logs the error.
\<close>

theorem volta_length_sum:
  "feature_from_node_Volta \<lparr>has_fractions = f, measures = map_option Some m\<rparr> =
     (let val = (if f then 1 else 0) + (case m of None \<Rightarrow> 0 | Some k \<Rightarrow> k)
      in Inr (val, if val = 0 then [(Error, ''Length of volta not specified.'')] else []))"
  by (cases m) (simp_all add: feature_from_node_Volta_def Let_def)

subsection \<open>Selecting sections\<close>

lemma py_range_upto: "py_range a (b + 1) = [a..b]"
proof -
  have "length (py_range a (b + 1)) = length [a..b]" by (simp add: py_range_def)
  moreover have "\<forall>i < length [a..b]. py_range a (b + 1) ! i = [a..b] ! i"
    by (auto simp: py_range_def)
  ultimately show ?thesis by (metis nth_equalityI)
qed

lemma count_list_rev: "count_list (rev xs) y = count_list xs y"
  by (induction xs) (auto simp: count_list_append)

lemma concat_keys_positions:
  "concat_keys seen rest =
     map (\<lambda>j. (rest ! j,
                if 1 < count_list seen (rest ! j) + count_list rest (rest ! j)
                then Some (count_list seen (rest ! j) + count_list (take j rest) (rest ! j))
                else None))
         [0..<length rest]"
proof (induction rest arbitrary: seen)
  case Nil
  then show ?case by simp
next
  case (Cons s r)
  have "map (\<lambda>j. ((s # r) ! j,
                if 1 < count_list seen ((s # r) ! j) + count_list (s # r) ((s # r) ! j)
                then Some (count_list seen ((s # r) ! j) + count_list (take j (s # r)) ((s # r) ! j))
                else None))
         [0..<length (s # r)]
        = (s, if 1 < count_list seen s + count_list (s # r) s then Some (count_list seen s) else None)
          # map (\<lambda>j. (r ! j,
                if 1 < count_list (s # seen) (r ! j) + count_list r (r ! j)
                then Some (count_list (s # seen) (r ! j) + count_list (take j r) (r ! j))
                else None))
              [0..<length r]"
    by (simp add: map_upt_Suc del: upt_Suc)
  then show ?case
    using Cons.IH [of "s # seen"] by (simp add: count_list_append count_list_rev)
qed

lemma concat_keys_distinct:
  assumes "distinct xs"
  shows "concat_keys [] xs = map (\<lambda>s. (s, None)) xs"
proof -
  have "count_list xs (xs ! j) = 1" if "j < length xs" for j
    using assms that
  proof (induction xs arbitrary: j)
    case Nil
    then show ?case by simp
  next
    case (Cons x xs)
    then show ?case by (cases j) (auto simp: count_list_0_iff)
  qed
  then show ?thesis
    unfolding concat_keys_positions by (intro nth_equalityI) simp_all
qed

lemma treat_in_range:
  "- n \<le> i \<Longrightarrow> i \<le> n - 1 \<Longrightarrow>
   treat_section_index i n = (Some (if i < 0 then n + i else i), [])"
  by (simp add: treat_section_index_def)

lemma treat_out_of_range:
  "i < - n \<or> n - 1 < i \<Longrightarrow>
   treat_section_index i n = (None, [(Warning, ''Section does not exist.'')])"
  by (auto simp: treat_section_index_def)

lemma treat_cases:
  "treat_section_index i n =
     (if i < - n \<or> n - 1 < i then (None, [(Warning, ''Section does not exist.'')])
      else (Some (if i < 0 then n + i else i), []))"
  by (auto simp: treat_section_index_def)

lemma treat_indices_kept:
  "map the (filter (\<lambda>t. t \<noteq> None) (fst (treat_section_indices xs n)))
   = map (\<lambda>i. if i < 0 then n + i else i) (filter (\<lambda>i. - n \<le> i \<and> i \<le> n - 1) xs)"
  by (induction xs) (auto simp: treat_section_indices_def treat_cases)

lemma treat_indices_log:
  "snd (treat_section_indices xs n)
   = map (\<lambda>i. (Warning, ''Section does not exist.'')) (filter (\<lambda>i. i < - n \<or> n - 1 < i) xs)"
  by (induction xs) (auto simp: treat_section_indices_def treat_cases)


lemma treat_indices_all_in_range:
  assumes "\<forall>i \<in> set xs. 0 \<le> i \<and> i \<le> n - 1"
  shows "treat_section_indices xs n = (map Some xs, [])"
  using assms by (induction xs) (auto simp: treat_section_indices_def treat_cases)

lemma treat_indices_all_out:
  assumes "\<forall>i \<in> set xs. i < - n \<or> n - 1 < i"
  shows "treat_section_indices xs n
         = (map (\<lambda>i. None) xs, replicate (length xs) (Warning, ''Section does not exist.''))"
  using assms by (induction xs) (auto simp: treat_section_indices_def treat_cases)

lemma select_pair_positive:
  assumes "0 < n"
  shows "select_sections n (SectionPair a b) =
     (let out_a = (a < - n \<or> n - 1 < a); out_b = (b < - n \<or> n - 1 < b);
          fro = (if out_a then 0 else if a < 0 then n + a else a);
          to = (if out_b then n - 1 else if b < 0 then n + b else b)
      in Inr (Some (map (\<lambda>s. (s, None)) (if fro \<le> to then [fro..to] else rev [to..fro])),
              (if out_a then [(Warning, ''Section does not exist.'')] else [])
              @ (if out_b then [(Warning, ''Section does not exist.'')] else [])
              @ (if out_a then [(Warning, ''Replaced by first section 0.'')] else [])
              @ (if out_b then [(Warning, ''Replaced by last section.'')] else [])))"
proof -
  define fro where "fro = (if a < - n \<or> n - 1 < a then 0 else if a < 0 then n + a else a)"
  define to where "to = (if b < - n \<or> n - 1 < b then n - 1 else if b < 0 then n + b else b)"
  define ran where "ran = (if fro \<le> to then [fro..to] else rev [to..fro])"
  have fr: "0 \<le> fro \<and> fro \<le> n - 1" using assms by (auto simp: fro_def)
  have tr: "0 \<le> to \<and> to \<le> n - 1" using assms by (auto simp: to_def)
  have inr: "\<forall>i \<in> set ran. 0 \<le> i \<and> i \<le> n - 1" using fr tr by (auto simp: ran_def)
  have ne: "ran \<noteq> []" by (auto simp: ran_def)
  have di: "distinct ran" by (simp add: ran_def)
  have ran': "(if to \<ge> fro then py_range fro (to + 1) else rev (py_range to (fro + 1))) = ran"
    by (simp add: ran_def py_range_upto)
  have t2: "treat_section_indices ran n = (map Some ran, [])"
    by (rule treat_indices_all_in_range [OF inr])
  have kept: "map the (filter (\<lambda>t. t \<noteq> None) (map Some ran)) = ran"
    by (induction ran) auto
  have keys: "concat_keys [] ran = map (\<lambda>s. (s, None)) ran"
    by (rule concat_keys_distinct [OF di])
  have a: "treat_section_index a n =
             (if a < - n \<or> n - 1 < a then (None, [(Warning, ''Section does not exist.'')])
              else (Some fro, []))"
    by (simp add: treat_cases fro_def)
  have b: "treat_section_index b n =
             (if b < - n \<or> n - 1 < b then (None, [(Warning, ''Section does not exist.'')])
              else (Some to, []))"
    by (simp add: treat_cases to_def)
  have fro0: "a < - n \<or> n - 1 < a \<Longrightarrow> fro = 0" by (simp add: fro_def)
  have to0: "b < - n \<or> n - 1 < b \<Longrightarrow> to = n - 1" by (simp add: to_def)
  have "select_sections n (SectionPair a b) =
          Inr (Some (map (\<lambda>s. (s, None)) ran),
              (if a < - n \<or> n - 1 < a then [(Warning, ''Section does not exist.'')] else [])
              @ (if b < - n \<or> n - 1 < b then [(Warning, ''Section does not exist.'')] else [])
              @ (if a < - n \<or> n - 1 < a then [(Warning, ''Replaced by first section 0.'')] else [])
              @ (if b < - n \<or> n - 1 < b then [(Warning, ''Replaced by last section.'')] else []))"
  proof (cases "a < - n \<or> n - 1 < a"; cases "b < - n \<or> n - 1 < b")
    assume oa: "a < - n \<or> n - 1 < a" and ob: "b < - n \<or> n - 1 < b"
    have r: "py_range 0 n = ran"
      using ran' assms unfolding fro0 [OF oa] to0 [OF ob] by simp
    show ?thesis
      using oa ob a b assms
      by (simp add: select_sections_def Let_def r t2 kept keys ne)
  next
    assume oa: "a < - n \<or> n - 1 < a" and ob: "\<not> (b < - n \<or> n - 1 < b)"
    have r: "py_range 0 (to + 1) = ran"
      using ran' tr unfolding fro0 [OF oa] by simp
    show ?thesis
      using oa ob a b tr
      by (simp add: select_sections_def Let_def r t2 kept keys ne)
  next
    assume oa: "\<not> (a < - n \<or> n - 1 < a)" and ob: "b < - n \<or> n - 1 < b"
    have r: "py_range fro n = ran"
      using ran' fr unfolding to0 [OF ob] by simp
    show ?thesis
      using oa ob a b fr
      by (simp add: select_sections_def Let_def r t2 kept keys ne)
  next
    assume oa: "\<not> (a < - n \<or> n - 1 < a)" and ob: "\<not> (b < - n \<or> n - 1 < b)"
    show ?thesis
      using oa ob a b
      by (simp add: select_sections_def Let_def ran' t2 kept keys ne)
  qed
  then show ?thesis by (simp add: Let_def fro_def to_def ran_def)
qed


lemma select_pair_nonpositive:
  assumes "n \<le> 0"
  shows "select_sections n (SectionPair a b) =
           Inr (None,
                [(Warning, ''Section does not exist.''), (Warning, ''Section does not exist.''),
                 (Warning, ''Replaced by first section 0.''), (Warning, ''Replaced by last section.'')]
                @ replicate (nat (2 - n)) (Warning, ''Section does not exist.''))"
proof -
  define ran where "ran = rev [n - 1..0]"
  have oa: "a < - n \<or> n - 1 < a" and ob: "b < - n \<or> n - 1 < b" using assms by auto
  have out: "\<forall>i \<in> set ran. i < - n \<or> n - 1 < i" using assms by (auto simp: ran_def)
  have len: "length ran = nat (2 - n)" by (simp add: ran_def)
  have r: "rev (py_range (n - 1) 1) = ran"
    using py_range_upto [of "n - 1" 0] by (simp add: ran_def)
  have t2: "treat_section_indices ran n
            = (map (\<lambda>i. None) ran, replicate (nat (2 - n)) (Warning, ''Section does not exist.''))"
    using treat_indices_all_out [OF out] by (simp add: len)
  have kept: "filter (\<lambda>t. t \<noteq> None) (map (\<lambda>i. None) ran) = []"
    by (induction ran) auto
  show ?thesis
    using assms treat_out_of_range [OF oa] treat_out_of_range [OF ob]
    by (simp add: select_sections_def Let_def r t2 kept)
qed

lemma select_one:
  "select_sections n (OneSection i) =
     (if i < - n \<or> n - 1 < i then Inl ValueError
      else Inr (Some [(if i < 0 then n + i else i, None)], []))"
  by (simp add: select_sections_def treat_cases)

lemma select_list:
  "select_sections n (SectionList xs) =
     (let kept = map (\<lambda>i. if i < 0 then n + i else i)
                     (filter (\<lambda>i. - n \<le> i \<and> i \<le> n - 1) xs);
          lg = map (\<lambda>i. (Warning, ''Section does not exist.''))
                   (filter (\<lambda>i. i < - n \<or> n - 1 < i) xs)
      in Inr (if kept = [] then None
              else Some (map (\<lambda>j. (kept ! j,
                                     if 1 < count_list kept (kept ! j)
                                     then Some (count_list (take j kept) (kept ! j))
                                     else None))
                             [0..<length kept]),
              lg))"
proof -
  obtain tr lg where t: "treat_section_indices xs n = (tr, lg)" by (cases "treat_section_indices xs n")
  have k: "map the (filter (\<lambda>t. t \<noteq> None) tr)
           = map (\<lambda>i. if i < 0 then n + i else i) (filter (\<lambda>i. - n \<le> i \<and> i \<le> n - 1) xs)"
    using treat_indices_kept [of xs n] by (simp add: t)
  have l: "lg = map (\<lambda>i. (Warning, ''Section does not exist.''))
                    (filter (\<lambda>i. i < - n \<or> n - 1 < i) xs)"
    using treat_indices_log [of xs n] by (simp add: t)
  show ?thesis
    unfolding select_sections_def section_arg.case t prod.case Let_def k
    by (simp add: l concat_keys_positions)
qed

text \<open>An exception of the section selection leaves \<^verbatim>\<open>get_notes\<close>.\<close>

lemma get_notes_raises:
  "select_sections (int (length sections)) section = Inl e \<Longrightarrow>
   get_notes beats masks with_articulation sections section multi beatsize kwargs = Inl e"
  by (simp add: get_notes_def ebind_def)

lemma get_notes_returns_None:
  "select_sections (int (length sections)) section = Inr (None, lg) \<Longrightarrow>
   get_notes beats masks with_articulation sections section multi beatsize kwargs = Inr (None, lg)"
  by (simp add: get_notes_def ebind_def)

text \<open>
  Claim C7 as stated fails: in a score of two sections, \<^verbatim>\<open>get_notes(5)\<close> raises
  \<^verbatim>\<open>ValueError\<close> (the \<^verbatim>\<open>raise\<close> of line 1189).
\<close>

theorem get_notes_section_counterexample:
  "select_sections 2 (OneSection 5) = Inl ValueError"
  by (simp add: select_sections_def treat_section_index_def)

text \<open>
  Claim C7, amended. For a score of \<open>n\<close> sections, the section selection of \<^verbatim>\<open>get_notes\<close>
  behaves as follows.

  \<^item> An integer selector raises \<^verbatim>\<open>ValueError\<close> exactly when it lies outside \<open>[-n, n - 1]\<close>;
    otherwise it selects that one section, counted from the end when negative, and logs
    nothing.

  \<^item> A list of integers never raises. Every entry outside \<open>[-n, n - 1]\<close> is dropped with
    one warning; the other entries are selected in the given order, negative ones counted from
    the end, a section selected several times being numbered by its occurrence. When no entry
    is left, \<^verbatim>\<open>get_notes\<close> returns \<^verbatim>\<open>None\<close>.

  \<^item> A 2-tuple never raises. An end outside \<open>[-n, n - 1]\<close> is logged as not existing and is
    replaced, with a second warning, by section \<open>0\<close> (first end) or by section \<open>n - 1\<close>
    (second end). With at least one section, exactly the sections from the first end to the
    second are selected, ascending or descending, and nothing else is logged. With no
    section at all, both ends are replaced, the \<open>2 - n\<close> indices of the range are dropped
    with one warning each, and \<^verbatim>\<open>get_notes\<close> returns \<^verbatim>\<open>None\<close>.
\<close>

theorem get_notes_section_selection:
  "select_sections n (OneSection i) =
     (if i < - n \<or> n - 1 < i then Inl ValueError
      else Inr (Some [(if i < 0 then n + i else i, None)], []))
   \<and> select_sections n (SectionList xs) =
     (let kept = map (\<lambda>i. if i < 0 then n + i else i)
                     (filter (\<lambda>i. - n \<le> i \<and> i \<le> n - 1) xs);
          lg = map (\<lambda>i. (Warning, ''Section does not exist.''))
                   (filter (\<lambda>i. i < - n \<or> n - 1 < i) xs)
      in Inr (if kept = [] then None
              else Some (map (\<lambda>j. (kept ! j,
                                     if 1 < count_list kept (kept ! j)
                                     then Some (count_list (take j kept) (kept ! j))
                                     else None))
                             [0..<length kept]),
              lg))
   \<and> select_sections n (SectionPair a b) =
     (let out_a = (a < - n \<or> n - 1 < a);
          out_b = (b < - n \<or> n - 1 < b);
          fro = (if out_a then 0 else if a < 0 then n + a else a);
          to = (if out_b then n - 1 else if b < 0 then n + b else b);
          lg = (if out_a then [(Warning, ''Section does not exist.'')] else [])
               @ (if out_b then [(Warning, ''Section does not exist.'')] else [])
               @ (if out_a then [(Warning, ''Replaced by first section 0.'')] else [])
               @ (if out_b then [(Warning, ''Replaced by last section.'')] else [])
      in if 0 < n
         then Inr (Some (map (\<lambda>s. (s, None)) (if fro \<le> to then [fro..to] else rev [to..fro])), lg)
         else Inr (None, lg @ replicate (nat (2 - n)) (Warning, ''Section does not exist.'')))"
proof (intro conjI)
  show "select_sections n (OneSection i) =
     (if i < - n \<or> n - 1 < i then Inl ValueError
      else Inr (Some [(if i < 0 then n + i else i, None)], []))"
    by (rule select_one)
next
  show "select_sections n (SectionList xs) =
     (let kept = map (\<lambda>i. if i < 0 then n + i else i)
                     (filter (\<lambda>i. - n \<le> i \<and> i \<le> n - 1) xs);
          lg = map (\<lambda>i. (Warning, ''Section does not exist.''))
                   (filter (\<lambda>i. i < - n \<or> n - 1 < i) xs)
      in Inr (if kept = [] then None
              else Some (map (\<lambda>j. (kept ! j,
                                     if 1 < count_list kept (kept ! j)
                                     then Some (count_list (take j kept) (kept ! j))
                                     else None))
                             [0..<length kept]),
              lg))"
    by (rule select_list)
next
  show "select_sections n (SectionPair a b) =
     (let out_a = (a < - n \<or> n - 1 < a);
          out_b = (b < - n \<or> n - 1 < b);
          fro = (if out_a then 0 else if a < 0 then n + a else a);
          to = (if out_b then n - 1 else if b < 0 then n + b else b);
          lg = (if out_a then [(Warning, ''Section does not exist.'')] else [])
               @ (if out_b then [(Warning, ''Section does not exist.'')] else [])
               @ (if out_a then [(Warning, ''Replaced by first section 0.'')] else [])
               @ (if out_b then [(Warning, ''Replaced by last section.'')] else [])
      in if 0 < n
         then Inr (Some (map (\<lambda>s. (s, None)) (if fro \<le> to then [fro..to] else rev [to..fro])), lg)
         else Inr (None, lg @ replicate (nat (2 - n)) (Warning, ''Section does not exist.'')))"
  proof (cases "0 < n")
    case True
    then show ?thesis using select_pair_positive [OF True, of a b] by (simp add: Let_def)
  next
    case False
    then have le: "n \<le> 0" by simp
    have oa: "a < - n \<or> n - 1 < a" and ob: "b < - n \<or> n - 1 < b" using le by auto
    show ?thesis using False oa ob select_pair_nonpositive [OF le, of a b] by (simp add: Let_def)
  qed
qed

subsection \<open>The note-event walker\<close>

text \<open>The powers of two among the duration values are doubles, so their conversion is exact.\<close>

lemma to_double_powers:
  "to_double (1 / 2) = 1 / 2" "to_double (1 / 4) = 1 / 4" "to_double (1 / 8) = 1 / 8"
  "to_double (1 / 16) = 1 / 16" "to_double (1 / 32) = 1 / 32" "to_double (1 / 64) = 1 / 64"
  "to_double (1 / 128) = 1 / 128"
  by code_simp+

lemma DURATIONS_exact_tokens:
  "DURATIONS ''half'' = Some (PFrac (1 / 2))"
  "DURATIONS ''quarter'' = Some (PFrac (1 / 4))"
  "DURATIONS ''eighth'' = Some (PFrac (1 / 8))"
  "DURATIONS ''16th'' = Some (PFrac (1 / 16))"
  "DURATIONS ''32nd'' = Some (PFrac (1 / 32))"
  "DURATIONS ''64th'' = Some (PFrac (1 / 64))"
  "DURATIONS ''128th'' = Some (PFrac (1 / 128))"
  by (simp_all add: DURATIONS_def to_double_powers)

text \<open>Arithmetic on exact operands is exact.\<close>

lemma py_mul_exact:
  "\<not> is_float x \<Longrightarrow> \<not> is_float y \<Longrightarrow>
   \<not> is_float (py_mul x y) \<and> num_val (py_mul x y) = num_val x * num_val y"
  by (cases x; cases y) (simp_all add: is_float_def num_val_def)

lemma py_add_exact:
  "\<not> is_float x \<Longrightarrow> \<not> is_float y \<Longrightarrow>
   \<not> is_float (py_add x y) \<and> num_val (py_add x y) = num_val x + num_val y"
  by (cases x; cases y) (simp_all add: is_float_def num_val_def)

lemma foldl_py_add_exact:
  "\<not> is_float a \<Longrightarrow> list_all (\<lambda>x. \<not> is_float x) xs \<Longrightarrow>
   \<not> is_float (foldl py_add a xs)
   \<and> num_val (foldl py_add a xs) = num_val a + sum_list (map num_val xs)"
proof (induction xs arbitrary: a)
  case Nil
  then show ?case by simp
next
  case (Cons x xs)
  have "\<not> is_float (py_add a x)" and "num_val (py_add a x) = num_val a + num_val x"
    using py_add_exact [of a x] Cons.prems by simp_all
  then show ?case using Cons.IH [of "py_add a x"] Cons.prems by simp
qed

lemma dotscalar_of_exact:
  assumes "\<not> is_float sc"
  shows "\<not> is_float (dotscalar_of dots sc)
         \<and> num_val (dotscalar_of dots sc)
           = num_val sc * (\<Sum>i < nat ((case dots of None \<Rightarrow> 0 | Some d \<Rightarrow> d) + 1). (1 / 2) ^ i)"
proof (cases dots)
  case None
  then show ?thesis using assms by (simp add: dotscalar_of_def)
next
  case (Some d)
  let ?xs = "map (\<lambda>i. PFrac (to_double (1 / 2) ^ i)) [0..<nat (d + 1)]"
  have ex: "list_all (\<lambda>x. \<not> is_float x) ?xs"
    by (simp add: is_float_def list_all_iff)
  have z: "\<not> is_float (PInt 0)" by (simp add: is_float_def)
  have s1: "\<not> is_float (py_sum ?xs)"
    and s2: "num_val (py_sum ?xs) = num_val (PInt 0) + sum_list (map num_val ?xs)"
    unfolding py_sum_def using foldl_py_add_exact [OF z ex] by simp_all
  have "sum_list (map num_val ?xs) = (\<Sum>i < nat (d + 1). (1 / 2) ^ i)"
    by (simp add: comp_def num_val_def to_double_powers sum_list_sum_nth atLeast0LessThan
                  interv_sum_list_conv_sum_set_nat)
  then have s3: "num_val (py_sum ?xs) = (\<Sum>i < nat (d + 1). (1 / 2) ^ i)"
    using s2 by (simp add: num_val_def)
  show ?thesis
    using py_mul_exact [OF s1 assms] s3 Some by (simp add: dotscalar_of_def)
qed

text \<open>
  For the duration types whose nominal duration is a \<^verbatim>\<open>Fraction\<close>, and an exact scalar, the
  duration is the exact product of nominal duration, scalar and the sum of the powers of
  one half up to the number of dots.
\<close>

lemma event_duration_exact:
  assumes "durationType \<in> {''half'', ''quarter'', ''eighth'', ''16th'', ''32nd'', ''64th'', ''128th''}"
    and "\<not> is_float sc"
  shows "\<exists>nominal_duration dotscalar duration.
           event_duration durationType dots sc = Inr (nominal_duration, dotscalar, duration)
           \<and> DURATIONS durationType = Some nominal_duration
           \<and> \<not> is_float duration
           \<and> num_val duration
             = num_val nominal_duration * num_val sc
               * (\<Sum>i < nat ((case dots of None \<Rightarrow> 0 | Some d \<Rightarrow> d) + 1). (1 / 2) ^ i)"
proof -
  obtain q where nom: "DURATIONS durationType = Some (PFrac q)"
    using assms(1) DURATIONS_exact_tokens by auto
  have nf: "\<not> is_float (PFrac q)" by (simp add: is_float_def)
  show ?thesis
    using nom py_mul_exact [OF nf dotscalar_of_exact [OF assms(2), THEN conjunct1], of dots]
          dotscalar_of_exact [OF assms(2), of dots]
    by (simp add: event_duration_def Let_def)
qed


text \<open>
  The scalar stack: a \<^verbatim>\<open>Tuplet\<close> pushes the scalar and multiplies it by
  \<open>normalNotes / actualNotes\<close>, chords and rests leave scalar and stack alone, and the
  closing \<^verbatim>\<open>endTuplet\<close> restores both.
\<close>

lemma walk_event_keeps_scalar:
  assumes "walk_event ctx st ev = Inr st'" and "ev \<noteq> EndTuplet" and "\<forall>n a. ev \<noteq> Tuplet n a"
  shows "scalar st' = scalar st \<and> scalar_stack st' = scalar_stack st"
  using assms
  by (cases ev) (auto simp: ebind_def split: sum.splits prod.splits)

lemma walk_events_keep_scalar:
  assumes "walk_events ctx st evs = Inr st'"
    and "list_all (\<lambda>ev. ev \<noteq> EndTuplet \<and> (\<forall>n a. ev \<noteq> Tuplet n a)) evs"
  shows "scalar st' = scalar st \<and> scalar_stack st' = scalar_stack st"
  using assms
proof (induction evs arbitrary: st)
  case Nil
  then show ?case by simp
next
  case (Cons ev evs)
  then obtain st1 where s1: "walk_event ctx st ev = Inr st1" and rest: "walk_events ctx st1 evs = Inr st'"
    by (auto split: sum.splits)
  have "scalar st1 = scalar st \<and> scalar_stack st1 = scalar_stack st"
    using walk_event_keeps_scalar [OF s1] Cons.prems(2) by simp
  moreover have "scalar st' = scalar st1 \<and> scalar_stack st' = scalar_stack st1"
    using Cons.IH [OF rest] Cons.prems(2) by simp
  ultimately show ?case by simp
qed

lemma walk_events_append:
  "walk_events ctx st (xs @ ys) =
     (case walk_events ctx st xs of Inl e \<Rightarrow> Inl e | Inr st1 \<Rightarrow> walk_events ctx st1 ys)"
  by (induction xs arbitrary: st) (auto split: sum.splits)

lemma tuplet_bracket:
  assumes run: "walk_events ctx st (Tuplet normalNotes actualNotes # body @ [EndTuplet]) = Inr st'"
    and body: "list_all (\<lambda>ev. ev \<noteq> EndTuplet \<and> (\<forall>n a. ev \<noteq> Tuplet n a)) body"
  shows "actualNotes \<noteq> 0 \<and> scalar st' = scalar st \<and> scalar_stack st' = scalar_stack st
         \<and> (\<exists>st1 st2. walk_event ctx st (Tuplet normalNotes actualNotes) = Inr st1
               \<and> scalar st1 = py_mul (scalar st) (PFrac (of_int normalNotes / of_int actualNotes))
               \<and> scalar_stack st1 = scalar st # scalar_stack st
               \<and> walk_events ctx st1 body = Inr st2
               \<and> scalar st2 = scalar st1)"
proof -
  obtain st1 where s1: "walk_event ctx st (Tuplet normalNotes actualNotes) = Inr st1"
    and r1: "walk_events ctx st1 (body @ [EndTuplet]) = Inr st'"
    using run by (auto split: sum.splits)
  have nz: "actualNotes \<noteq> 0"
    using s1 by (auto simp: frac_def ebind_def split: if_splits)
  have st1: "scalar st1 = py_mul (scalar st) (PFrac (of_int normalNotes / of_int actualNotes))"
            "scalar_stack st1 = scalar st # scalar_stack st"
    using s1 nz by (auto simp: frac_def ebind_def)
  obtain st2 where s2: "walk_events ctx st1 body = Inr st2"
    and r2: "walk_events ctx st2 [EndTuplet] = Inr st'"
    using r1 by (auto simp: walk_events_append split: sum.splits)
  have k: "scalar st2 = scalar st1 \<and> scalar_stack st2 = scalar_stack st1"
    by (rule walk_events_keep_scalar [OF s2 body])
  have "scalar st' = scalar st \<and> scalar_stack st' = scalar_stack st"
    using r2 k st1 by (auto split: list.splits)
  then show ?thesis using nz s1 st1 s2 k by auto
qed

text \<open>
  Three undotted eighth-note chords in a 2:3 tuplet: every note has scalar \<open>2/3\<close> and
  duration \<open>1/12\<close>, and the pointer ends at \<open>1/4\<close>.
\<close>

lemma tuplet_three_eighths:
  "\<exists>st. walk_voice ctx [Tuplet 2 3, Chord ''eighth'' None None None [n],
                        Chord ''eighth'' None None None [n],
                        Chord ''eighth'' None None None [n], EndTuplet] = Inr st
     \<and> map row_scalar (df_vals st) = [PFrac (2 / 3), PFrac (2 / 3), PFrac (2 / 3)]
     \<and> map row_duration (df_vals st) = [PFrac (1 / 12), PFrac (1 / 12), PFrac (1 / 12)]
     \<and> map row_onset (df_vals st) = [PFrac 0, PFrac (1 / 12), PFrac (1 / 6)]
     \<and> pointer st = PFrac (1 / 4) \<and> scalar st = PInt 1 \<and> scalar_stack st = []"
  by (simp add: walk_voice_def initial_state_def frac_def event_duration_def dotscalar_of_def
                DURATIONS_exact_tokens note_row_of_def Let_def)

lemma to_double_zero: "to_double 0 = 0"
  by (simp add: to_double_def)

lemma to_double_values:
  "to_double 1 = 1"
  "to_double (2 / 3) = 6004799503160661 / 9007199254740992"
  "to_double (6004799503160661 / 9007199254740992) = 6004799503160661 / 9007199254740992"
  "to_double (5 / 4) = 5 / 4"
  by code_simp+

text \<open>
  Claim C1 at a whole-note chord inside a 2:3 tuplet: the nominal duration is the float
  \<open>1.0\<close> and the scalar the fraction \<open>2/3\<close>, so the product is computed in doubles; the
  duration of the note is the double nearest to \<open>2/3\<close>, which is not the product
  \<open>1 \<times> 2/3 \<times> 1\<close> of the claim.
\<close>

theorem whole_note_in_triplet_duration:
  "\<exists>st. walk_voice ctx [Tuplet 2 3, Chord ''whole'' None None None [n]] = Inr st
     \<and> map row_nominal_duration (df_vals st) = [PFloat 1]
     \<and> map row_scalar (df_vals st) = [PFrac (2 / 3)]
     \<and> map row_duration (df_vals st) = [PFloat (6004799503160661 / 9007199254740992)]
     \<and> (6004799503160661 / 9007199254740992 :: rat) \<noteq> 1 * (2 / 3) * (\<Sum>i < 1. (1 / 2) ^ i)"
  by (simp add: walk_voice_def initial_state_def frac_def event_duration_def dotscalar_of_def
                DURATIONS_def note_row_of_def Let_def num_val_def to_double_values)

text \<open>
  Claim C2 at the tokens \<^verbatim>\<open>measure\<close>, \<^verbatim>\<open>breve\<close> and \<^verbatim>\<open>whole\<close>: their nominal durations
  are floats, and after a whole-note chord the duration of that chord, the pointer and
  the onset of the next note are floats.
\<close>

theorem whole_note_float_durations:
  "DURATIONS ''measure'' = Some (PFloat 1) \<and> DURATIONS ''breve'' = Some (PFloat 2)
   \<and> DURATIONS ''whole'' = Some (PFloat 1)
   \<and> (\<exists>st. walk_voice ctx [Chord ''whole'' None None None [n],
                            Chord ''quarter'' None None None [n]] = Inr st
          \<and> map row_duration (df_vals st) = [PFloat 1, PFrac (1 / 4)]
          \<and> map row_onset (df_vals st) = [PFrac 0, PFloat 1]
          \<and> pointer st = PFloat (5 / 4))"
  by (simp add: walk_voice_def initial_state_def frac_def event_duration_def dotscalar_of_def
                DURATIONS_def note_row_of_def Let_def num_val_def to_double_values
                to_double_powers to_double_zero)

subsection \<open>Feature columns and filters of \<^verbatim>\<open>get_notes\<close>\<close>












subsection \<open>Repeated spans\<close>

lemma end_mcs_ends_from:
  "map (row_mc_of \<circ> fst) (filter snd (zip (x # rs) (map is_startRepeat rs @ [True])))
   = ends_from (row_mc_of x) rs"
  by (induction rs arbitrary: x) auto

lemma zip_close_spans:
  "zip (s # map (row_mc_of \<circ> fst) (filter snd (zip rs (map is_startRepeat rs)))) (ends_from e rs)
   = close_spans s e rs"
  by (induction rs arbitrary: s e) auto

lemma pair_repeat_rows_aligned:
  assumes "is_startRepeat r"
  shows "pair_repeat_rows (r # rs) = Inr (close_spans (row_mc_of r) (row_mc_of r) rs)"
  using assms end_mcs_ends_from [of r rs] zip_close_spans [of "row_mc_of r" rs "row_mc_of r"]
  by (simp add: pair_repeat_rows_def Let_def)

text \<open>
  Claim C3 as stated fails on the table of the docstring of \<^verbatim>\<open>compute_repeat_structure\<close>:
  the rows marked \<^verbatim>\<open>endRepeat\<close> are at the measure counts 17, 23, 24 and 39, so the nearest
  \<^verbatim>\<open>endRepeat\<close> after the start at 0 is at 17, after 19 at 23 and after 31 at 39; the
  spans returned end at 18, 25 and 40, the rows before the next start and the last row.
\<close>

theorem repeat_pairs_counterexample:
  "map fst (filter (\<lambda>r. fst (snd r) = Some ''endRepeat'')
     [(0, Some ''firstMeasure'', None), (16, None, Some 1), (17, Some ''endRepeat'', Some 1),
      (18, None, Some 2), (19, Some ''startRepeat'', None), (23, Some ''endRepeat'', Some 1),
      (24, Some ''endRepeat'', Some 2), (25, None, Some 3), (31, Some ''startRepeat'', None),
      (39, Some ''endRepeat'', Some 1), (40, None, Some (2 :: int))])
   = [17 :: int, 23, 24, 39]
   \<and> compute_repeat_structure
     [(0, Some ''firstMeasure'', None), (16, None, Some 1), (17, Some ''endRepeat'', Some 1),
      (18, None, Some 2), (19, Some ''startRepeat'', None), (23, Some ''endRepeat'', Some 1),
      (24, Some ''endRepeat'', Some 2), (25, None, Some 3), (31, Some ''startRepeat'', None),
      (39, Some ''endRepeat'', Some 1), (40, None, Some 2)]
   = Inr [(0, 18), (19, 25), (31, 40)]"
  by code_simp

text \<open>
  Claim C3, amended: when the first row that is left after steps 1 and 2 is a
  \<^verbatim>\<open>startRepeat\<close>, every \<^verbatim>\<open>startRepeat\<close> at \<open>s\<close> is paired with the measure count of the
  last considered row before the next \<^verbatim>\<open>startRepeat\<close>, whether or not that row is an
  \<^verbatim>\<open>endRepeat\<close>, and the last \<^verbatim>\<open>startRepeat\<close> with the last considered row; the pairs come
  in document order.
\<close>

theorem repeat_pairs_close_before_next_start:
  assumes "prepare_repeat_rows rows = Inr (Some (r # rs))" and "is_startRepeat r"
  shows "compute_repeat_structure rows = Inr (close_spans (row_mc_of r) (row_mc_of r) rs)"
  using assms by (simp add: compute_repeat_structure_def ebind_def pair_repeat_rows_aligned)

text \<open>
  The theorem on a first ending with its \<^verbatim>\<open>endRepeat\<close> at 1, a second ending at 2 and a
  second repeated span from 3 to 4.
\<close>

theorem repeat_pairs_close_before_next_start_witness:
  "prepare_repeat_rows
     [(0, Some ''firstMeasure'', None), (1, Some ''endRepeat'', Some 1), (2, None, Some 2),
      (3, Some ''startRepeat'', None), (4, Some ''endRepeat'', None), (5, Some ''lastMeasure'', None)]
   = Inr (Some [(0, 0, Some ''startRepeat'', None), (1, 1, Some ''endRepeat'', Some 1),
                (2, 2, None, Some 2), (3, 3, Some ''startRepeat'', None),
                (4, 4, Some ''endRepeat'', None)])
   \<and> is_startRepeat (0, 0, Some ''startRepeat'', None)
   \<and> compute_repeat_structure
       [(0, Some ''firstMeasure'', None), (1, Some ''endRepeat'', Some 1), (2, None, Some 2),
        (3, Some ''startRepeat'', None), (4, Some ''endRepeat'', None), (5, Some ''lastMeasure'', None)]
     = Inr [(0, 2), (3, 4)]"
proof -
  let ?rows = "[(0, Some ''firstMeasure'', None), (1, Some ''endRepeat'', Some 1), (2, None, Some 2),
      (3, Some ''startRepeat'', None), (4, Some ''endRepeat'', None), (5, Some ''lastMeasure'', None)]
      :: repeat_row list"
  let ?r = "(0, 0, Some ''startRepeat'', None) :: labelled_row"
  let ?rs = "[(1, 1, Some ''endRepeat'', Some 1), (2, 2, None, Some 2),
              (3, 3, Some ''startRepeat'', None), (4, 4, Some ''endRepeat'', None)] :: labelled_row list"
  have h1: "prepare_repeat_rows ?rows = Inr (Some (?r # ?rs))" by code_simp
  have h2: "is_startRepeat ?r" by code_simp
  have c: "close_spans (row_mc_of ?r) (row_mc_of ?r) ?rs = [(0, 2), (3, 4)]" by code_simp
  show ?thesis
    using h1 h2 repeat_pairs_close_before_next_start [OF h1 h2] c by simp
qed

subsection \<open>Staves with different measure counts\<close>

lemma compare_to_first_differ:
  assumes "\<exists>c \<in> set cs. length c \<noteq> length c1"
  shows "isl (compare_to_first c1 cs)"
  using assms
proof (induction cs)
  case Nil
  then show ?case by simp
next
  case (Cons c cs)
  show ?case
  proof (cases "length c = length c1")
    case True
    then have "\<exists>c \<in> set cs. length c \<noteq> length c1" using Cons.prems by auto
    then have "isl (compare_to_first c1 cs)" by (rule Cons.IH)
    then show ?thesis by (auto simp: ebind_def split: sum.splits)
  next
    case False
    then have "c1 \<noteq> c" by auto
    then have "compare_column c1 c = Inl ValueError"
      using False by (simp add: compare_column_def nan_eq_def)
    then show ?thesis by simp
  qed
qed

text \<open>
  Claim C8: when two staves have different measure counts, lines 866 to 885 of the
  constructor raise an exception, so that no \<^verbatim>\<open>Score\<close> is constructed. The error message
  of line 869 does not abort; the exception is the \<^verbatim>\<open>ValueError\<close> of line 883, where
  \<^verbatim>\<open>nan_eq\<close> compares the first staff's column with a column of another length (or the
  \<^verbatim>\<open>KeyError\<close> or \<^verbatim>\<open>ValueError\<close> of line 872 when there is no staff 1 or it has no
  measure).
\<close>

theorem staves_of_different_length_abort:
  assumes "card (set (map (length \<circ> snd) mc_info)) > 1"
  shows "isl (check_staves mc_info)"
proof (cases "map_of mc_info 1")
  case None
  then show ?thesis by (simp add: check_staves_def Let_def)
next
  case (Some staff1)
  show ?thesis
  proof (cases "staff1 = []")
    case True
    then show ?thesis using Some by (simp add: check_staves_def Let_def)
  next
    case False
    obtain t ts where tabs: "map snd mc_info = t # ts"
      using assms by (cases "map snd mc_info") auto
    have "\<exists>u \<in> set ts. length u \<noteq> length t"
    proof (rule ccontr)
      assume "\<not> (\<exists>u \<in> set ts. length u \<noteq> length t)"
      then have "set (map length (t # ts)) = {length t}" by auto
      then have "set (map (length \<circ> snd) mc_info) = {length t}"
        using tabs by (metis map_map)
      then show False using assms by simp
    qed
    then have "\<exists>c \<in> set (map (map (opt_cell IntC \<circ> keysig)) ts).
                 length c \<noteq> length (map (opt_cell IntC \<circ> keysig) t)"
      by auto
    then have "isl (compare_to_first (map (opt_cell IntC \<circ> keysig) t)
                      (map (map (opt_cell IntC \<circ> keysig)) ts))"
      by (rule compare_to_first_differ)
    then have "isl (compare_staves compared_columns (map snd mc_info))"
      unfolding compared_columns_def tabs by (auto simp: ebind_def split: sum.splits)
    then show ?thesis
      using Some False by (auto simp: check_staves_def Let_def ebind_def split: sum.splits)
  qed
qed

text \<open>The theorem on a first staff of two measures and a second staff of one measure.\<close>

theorem staves_of_different_length_abort_witness:
  "card (set (map (length \<circ> snd)
      [(1 :: int, [\<lparr>keysig = None, timesig = Some ''4/4'', act_dur = None, voices = Some 1,
                     repeats = None, volta = None, barline = None, numbering_offset = None,
                     dont_count = None\<rparr>,
                   \<lparr>keysig = None, timesig = None, act_dur = None, voices = Some 1,
                     repeats = None, volta = None, barline = None, numbering_offset = None,
                     dont_count = None\<rparr>]),
       (2, [\<lparr>keysig = None, timesig = Some ''4/4'', act_dur = None, voices = Some 1,
              repeats = None, volta = None, barline = None, numbering_offset = None,
              dont_count = None\<rparr>])])) > 1
   \<and> isl (check_staves
      [(1 :: int, [\<lparr>keysig = None, timesig = Some ''4/4'', act_dur = None, voices = Some 1,
                     repeats = None, volta = None, barline = None, numbering_offset = None,
                     dont_count = None\<rparr>,
                   \<lparr>keysig = None, timesig = None, act_dur = None, voices = Some 1,
                     repeats = None, volta = None, barline = None, numbering_offset = None,
                     dont_count = None\<rparr>]),
       (2, [\<lparr>keysig = None, timesig = Some ''4/4'', act_dur = None, voices = Some 1,
              repeats = None, volta = None, barline = None, numbering_offset = None,
              dont_count = None\<rparr>])])"
proof -
  let ?X = "[(1 :: int, [\<lparr>keysig = None, timesig = Some ''4/4'', act_dur = None, voices = Some 1,
                     repeats = None, volta = None, barline = None, numbering_offset = None,
                     dont_count = None\<rparr>,
                   \<lparr>keysig = None, timesig = None, act_dur = None, voices = Some 1,
                     repeats = None, volta = None, barline = None, numbering_offset = None,
                     dont_count = None\<rparr>]),
       (2, [\<lparr>keysig = None, timesig = Some ''4/4'', act_dur = None, voices = Some 1,
              repeats = None, volta = None, barline = None, numbering_offset = None,
              dont_count = None\<rparr>])]"
  have h: "card (set (map (length \<circ> snd) ?X)) > 1" by simp
  have "isl (check_staves ?X)" by (rule staves_of_different_length_abort [OF h])
  with h show ?thesis by (rule conjI)
qed

subsection \<open>Sections\<close>

text \<open>The sorted list of bounds and the ranges read off it.\<close>

lemma bounds_between_mset:
  "mset (bounds_between fro bs to) = mset ([fro, to] @ bs @ map (\<lambda>i. i + 1) bs)"
  by (induction bs arbitrary: fro) auto

lemma bounds_between_hd: "hd (bounds_between fro bs to) = fro"
  by (cases bs) auto

lemma splits_ok_Cons:
  "splits_ok fro (b # bs) to \<Longrightarrow> fro \<le> b \<and> b < to \<and> splits_ok (b + 1) bs to"
  by (auto simp: splits_ok_def)

lemma bounds_between_sorted:
  "splits_ok fro bs to \<Longrightarrow> sorted (bounds_between fro bs to)"
proof (induction bs arbitrary: fro)
  case Nil
  then show ?case by (simp add: splits_ok_def)
next
  case (Cons b bs)
  have lt: "fro \<le> b" and rest: "splits_ok (b + 1) bs to"
    using splits_ok_Cons [OF Cons.prems] by simp_all
  have srt: "sorted (bounds_between (b + 1) bs to)" by (rule Cons.IH [OF rest])
  have "\<forall>x \<in> set (bounds_between (b + 1) bs to). b + 1 \<le> x"
    using srt bounds_between_hd [of "b + 1" bs to]
    by (cases "bounds_between (b + 1) bs to") auto
  then show ?case using lt srt by auto
qed

lemma sort_bounds:
  assumes "splits_ok fro bs to"
  shows "sort ([fro, to] @ bs @ map (\<lambda>i. i + 1) bs) = bounds_between fro bs to"
  by (rule properties_for_sort [OF bounds_between_mset bounds_between_sorted [OF assms]])

lemma bounds_between_length: "length (bounds_between fro bs to) = 2 * length bs + 2"
  by (induction bs arbitrary: fro) auto

lemma pairs_of_bounds:
  "map (\<lambda>i. (bounds_between fro bs to ! (2 * i), bounds_between fro bs to ! (2 * i + 1)))
       [0..<length (bounds_between fro bs to) div 2]
   = spans_between fro bs to"
proof (induction bs arbitrary: fro)
  case Nil
  then show ?case by simp
next
  case (Cons b bs)
  let ?l = "bounds_between (b + 1) bs to"
  have len: "length (bounds_between fro (b # bs) to) div 2 = Suc (length ?l div 2)"
    by (simp add: bounds_between_length)
  have "map (\<lambda>i. ((fro # b # ?l) ! (2 * i), (fro # b # ?l) ! (2 * i + 1))) [0..<Suc (length ?l div 2)]
        = (fro, b) # map (\<lambda>i. (?l ! (2 * i), ?l ! (2 * i + 1))) [0..<length ?l div 2]"
    by (simp add: map_upt_Suc del: upt_Suc)
  then show ?case using Cons.IH [of "b + 1"] len by simp
qed

lemma covered_spans_between:
  "splits_ok fro bs to \<Longrightarrow> covered (spans_between fro bs to) = [fro..to]"
proof (induction bs arbitrary: fro)
  case Nil
  then show ?case by (simp add: covered_def)
next
  case (Cons b bs)
  have lt: "fro \<le> b" and bt: "b < to" and rest: "splits_ok (b + 1) bs to"
    using splits_ok_Cons [OF Cons.prems] by simp_all
  have "[fro..to] = [fro..b] @ [b + 1..to]"
    using lt bt by (intro upto_split2) auto
  then show ?case using Cons.IH [OF rest] by (simp add: covered_def)
qed

lemma split_mcs_of_ok:
  "splits_ok fro (split_mcs_of seps info fro to) to" if "fro \<le> to"
proof -
  let ?bs = "split_mcs_of seps info fro to"
  have s: "sorted_wrt (<) ?bs"
    unfolding split_mcs_of_def by (rule sorted_wrt_filter [OF sorted_wrt_upto])
  have r: "\<forall>b \<in> set ?bs. fro \<le> b \<and> b < to"
    by (auto simp: split_mcs_of_def)
  show ?thesis using s r that by (simp add: splits_ok_def)
qed

lemma create_section_spans:
  assumes "fro \<le> to"
  shows "create_section seps info fro to =
           ebind (info_at info fro) (\<lambda>start_row. ebind (info_at info to) (\<lambda>end_row.
             Inr (spans_between fro (split_mcs_of seps info fro to) to)))"
proof -
  let ?bs = "split_mcs_of seps info fro to"
  have ok: "splits_ok fro ?bs to" by (rule split_mcs_of_ok [OF assms])
  let ?L = "sort ([fro, to] @ ?bs @ map (\<lambda>i. i + 1) ?bs)"
  have e: "(if ?bs \<noteq> []
            then Inr (map (\<lambda>i. (?L ! (2 * i), ?L ! (2 * i + 1))) [0..<length ?L div 2])
            else Inr [(fro, to)])
           = (Inr (spans_between fro ?bs to) :: py_error + (int \<times> int) list)"
  proof (cases "?bs = []")
    case True
    then show ?thesis by simp
  next
    case False
    then show ?thesis
      by (simp only: sort_bounds [OF ok] pairs_of_bounds if_True not_False_eq_True)
  qed
  show ?thesis unfolding create_section_def Let_def e ..
qed

lemma create_section_covers:
  assumes "create_section seps info fro to = Inr secs" and "fro \<le> to"
  shows "covered secs = [fro..to]"
proof -
  have "secs = spans_between fro (split_mcs_of seps info fro to) to"
    using assms(1) unfolding create_section_spans [OF assms(2)]
    by (auto simp: ebind_def split: sum.splits)
  then show ?thesis using covered_spans_between [OF split_mcs_of_ok [OF assms(2)]] by simp
qed

lemma create_section_reversed:
  assumes "create_section seps info fro to = Inr secs" and "to < fro"
  shows "secs = [(fro, to)]"
proof -
  have "split_mcs_of seps info fro to = []"
    using assms(2) by (simp add: split_mcs_of_def)
  then show ?thesis using assms(1)
    by (auto simp: create_section_def ebind_def Let_def split: sum.splits)
qed

text \<open>
  The rows that are paired: in the order of their measure counts, not empty, and ending
  after the first measure.
\<close>

lemma repeat_rows_zip:
  "zip [0..<length (repeat_rows_of info)] (repeat_rows_of info)
   = map (\<lambda>i. (i, int i, repeats (info ! i), volta (info ! i))) [0..<length info]"
  by (rule nth_equalityI) (simp_all add: repeat_rows_of_def)

lemma considered_rows_ok:
  "rows_ok (length info) (considered_rows (repeat_rows_of info))"
proof -
  let ?all = "map (\<lambda>i. (i, int i, repeats (info ! i), volta (info ! i))) [0..<length info]"
  have s': "sorted_wrt (\<lambda>x y. row_mc_of x < row_mc_of y) ?all"
    by (simp add: sorted_wrt_map row_mc_of_def)
  have m: "\<forall>r \<in> set ?all. row_mc_of r = int (row_label r) \<and> row_label r < length info"
    by (auto simp: row_mc_of_def row_label_def)
  show ?thesis
    unfolding rows_ok_def considered_rows_def repeat_rows_zip
    using sorted_wrt_filter [OF s'] m by (auto simp: sorted_wrt_map)
qed

lemma rows_ok_sub:
  assumes "rows_ok n df"
  shows "rows_ok n (butlast df)" and "rows_ok n (filter P df)" and "rows_ok n (tl df)"
proof -
  have a: "sorted_wrt (\<lambda>x y. row_mc_of x < row_mc_of y) df"
    and b: "\<forall>r \<in> set df. row_mc_of r = int (row_label r) \<and> row_label r < n"
    using assms by (simp_all add: rows_ok_def sorted_wrt_map)
  show "rows_ok n (filter P df)"
    using sorted_wrt_filter [OF a] b by (auto simp: rows_ok_def sorted_wrt_map)
  have "sorted_wrt (\<lambda>x y. row_mc_of x < row_mc_of y) (butlast df)"
    using a by (metis append_butlast_last_id butlast.simps(1) sorted_wrt_append)
  then show "rows_ok n (butlast df)"
    using b by (auto simp: rows_ok_def sorted_wrt_map dest: in_set_butlastD)
  have "sorted_wrt (\<lambda>x y. row_mc_of x < row_mc_of y) (tl df)"
    using a by (cases df) auto
  moreover have "\<forall>r \<in> set (tl df). row_mc_of r = int (row_label r) \<and> row_label r < n"
    using b by (cases df) auto
  ultimately show "rows_ok n (tl df)"
    by (simp add: rows_ok_def sorted_wrt_map)
qed

lemma rows_ok_last_pos:
  assumes "rows_ok n df" and "length df \<ge> 2"
  shows "row_mc_of (last df) \<ge> 1"
proof -
  obtain a b cs where df: "df = a # b # cs"
    using assms(2) by (cases df; cases "tl df") auto
  have "sorted_wrt (<) (map row_mc_of df)" using assms(1) by (simp add: rows_ok_def)
  then have "row_mc_of a < row_mc_of (last df)"
    unfolding df by (cases cs) (auto simp: )
  moreover have "0 \<le> row_mc_of a" using assms(1) df by (simp add: rows_ok_def)
  ultimately show ?thesis by simp
qed


lemma rows_ok_upgrade:
  assumes "rows_ok n df" and "df \<noteq> []"
  shows "rows_ok n ((row_label (hd df), row_mc_of (hd df), x, row_volta_of (hd df)) # tl df)"
proof -
  obtain a as where df: "df = a # as" using assms(2) by (cases df) auto
  have m: "row_mc_of (i, j, x, v) = j" and l: "row_label (i, j, x, v) = i"
    for i j and v :: "int option"
    by (simp_all add: row_mc_of_def row_label_def)
  show ?thesis using assms(1) unfolding df
    by (fastforce simp: rows_ok_def m l)
qed

lemma rows_ok_dropped:
  assumes "rows_ok n df" and "length df \<ge> 2"
  shows "filter (\<lambda>r. row_label r \<noteq> 0) df \<noteq> []"
    and "row_mc_of (last (filter (\<lambda>r. row_label r \<noteq> 0) df)) \<ge> 1"
proof -
  obtain a b cs where df: "df = a # b # cs"
    using assms(2) by (cases df; cases "tl df") auto
  have "row_mc_of a < row_mc_of b" "0 \<le> row_mc_of a" "row_mc_of b = int (row_label b)"
    using assms(1) unfolding df by (simp_all add: rows_ok_def)
  then have "row_label b \<noteq> 0" by auto
  then have "b \<in> set (filter (\<lambda>r. row_label r \<noteq> 0) df)" by (simp add: df)
  then show ne: "filter (\<lambda>r. row_label r \<noteq> 0) df \<noteq> []"
    by (metis list.set(1) empty_iff)
  have "last (filter (\<lambda>r. row_label r \<noteq> 0) df) \<in> set (filter (\<lambda>r. row_label r \<noteq> 0) df)"
    by (rule last_in_set [OF ne])
  then have "row_label (last (filter (\<lambda>r. row_label r \<noteq> 0) df)) \<noteq> 0"
    and "last (filter (\<lambda>r. row_label r \<noteq> 0) df) \<in> set df"
    by auto
  then show "row_mc_of (last (filter (\<lambda>r. row_label r \<noteq> 0) df)) \<ge> 1"
    using assms(1) by (auto simp: rows_ok_def)
qed

lemma prepare_rows_ok:
  assumes prep: "prepare_repeat_rows rows = Inr (Some df2)"
    and ok: "rows_ok n (considered_rows rows)"
  shows "rows_ok n df2 \<and> df2 \<noteq> [] \<and> row_mc_of (last df2) \<ge> 1"
proof -
  define df0 where "df0 = considered_rows rows"
  define df1 where "df1 = (if row_repeats (last df0) = Some ''lastMeasure'' \<and> row_volta_of (last df0) = None
                           then butlast df0 else df0)"
  have ok1: "rows_ok n df1"
    using ok rows_ok_sub(1) [of n df0] by (simp add: df1_def df0_def)
  have p: "(if df0 = [] then Inl IndexError
            else if length df1 = 1 then Inr None
            else if df1 = [] then Inl IndexError
            else if row_repeats (hd df1) = Some ''firstMeasure''
            then if row_repeats (df1 ! skip_nan_repeats df1 1) = Some ''endRepeat''
                 then Inr (Some ((row_label (hd df1), row_mc_of (hd df1),
                                  Some ''startRepeat'', row_volta_of (hd df1)) # tl df1))
                 else if list_ex (\<lambda>r. row_label r = 0) df1
                 then Inr (Some (filter (\<lambda>r. row_label r \<noteq> 0) df1))
                 else Inl KeyError
            else Inr (Some df1)) = Inr (Some df2)"
    using prep unfolding prepare_repeat_rows_def Let_def df1_def df0_def by simp
  then have len: "length df1 \<ge> 2"
    by (cases df1; cases "tl df1") (auto split: if_splits)
  then have ne: "df1 \<noteq> []" by auto
  consider (up) "df2 = (row_label (hd df1), row_mc_of (hd df1), Some ''startRepeat'', row_volta_of (hd df1)) # tl df1"
    | (drop) "df2 = filter (\<lambda>r. row_label r \<noteq> 0) df1"
    | (same) "df2 = df1"
    using p by (auto split: if_splits)
  then show ?thesis
  proof cases
    case up
    have r: "rows_ok n df2" unfolding up by (rule rows_ok_upgrade [OF ok1 ne])
    have "length df2 = length df1" unfolding up using ne by (cases df1) auto
    then have "length df2 \<ge> 2" using len by simp
    then show ?thesis using r rows_ok_last_pos [OF r] by auto
  next
    case drop
    show ?thesis unfolding drop
      using rows_ok_sub(2) [OF ok1] rows_ok_dropped [OF ok1 len] by simp
  next
    case same
    show ?thesis unfolding same using ok1 ne rows_ok_last_pos [OF ok1 len] by simp
  qed
qed

lemma close_spans_chain:
  assumes "sorted_wrt (<) (e # map row_mc_of rs)" and "lt < s" and "s \<le> e"
  shows "pairs_chain lt (close_spans s e rs)
         \<and> close_spans s e rs \<noteq> []
         \<and> snd (last (close_spans s e rs)) = last (e # map row_mc_of rs)"
  using assms
proof (induction rs arbitrary: lt s e)
  case Nil
  then show ?case by simp
next
  case (Cons r rs)
  have lt': "e < row_mc_of r" and srt: "sorted_wrt (<) (row_mc_of r # map row_mc_of rs)"
    using Cons.prems(1) by auto
  show ?case
  proof (cases "is_startRepeat r")
    case True
    have "pairs_chain e (close_spans (row_mc_of r) (row_mc_of r) rs)
          \<and> close_spans (row_mc_of r) (row_mc_of r) rs \<noteq> []
          \<and> snd (last (close_spans (row_mc_of r) (row_mc_of r) rs)) = last (row_mc_of r # map row_mc_of rs)"
      by (rule Cons.IH [OF srt lt']) simp
    then show ?thesis using True Cons.prems by simp
  next
    case False
    have "pairs_chain lt (close_spans s (row_mc_of r) rs)
          \<and> close_spans s (row_mc_of r) rs \<noteq> []
          \<and> snd (last (close_spans s (row_mc_of r) rs)) = last (row_mc_of r # map row_mc_of rs)"
      using Cons.prems lt' by (intro Cons.IH [OF srt]) auto
    then show ?thesis using False by simp
  qed
qed

lemma misaligned_pairs_reversed:
  assumes "sorted_wrt (<) (e # map row_mc_of rs)"
  shows "\<forall>(s, p) \<in> set (zip (map (row_mc_of \<circ> fst) (filter snd (zip rs (map is_startRepeat rs))))
                            (ends_from e rs)). p < s"
  using assms
proof (induction rs arbitrary: e)
  case Nil
  then show ?case by simp
next
  case (Cons r rs)
  have lt': "e < row_mc_of r" and srt: "sorted_wrt (<) (row_mc_of r # map row_mc_of rs)"
    using Cons.prems(1) by auto
  show ?case using Cons.IH [OF srt] lt' by auto
qed

lemma pair_repeat_rows_misaligned:
  assumes "\<not> is_startRepeat r"
  shows "pair_repeat_rows (r # rs)
         = Inr (zip (map (row_mc_of \<circ> fst) (filter snd (zip rs (map is_startRepeat rs))))
                    (ends_from (row_mc_of r) rs))"
  using assms end_mcs_ends_from [of r rs]
  by (simp add: pair_repeat_rows_def Let_def)

text \<open>
  The loop over the repeated spans: spans in document order are covered without gap or
  overlap, and a span that ends before it begins stays in \<^verbatim>\<open>section_structure\<close> as a
  section without measures, which ends the constructor.
\<close>

lemma covered_append: "covered (a @ b) = covered a @ covered b"
  by (simp add: covered_def)

lemma section_loop_chain:
  assumes "pairs_chain lt ps"
    and "section_loop seps info ps (lt, t0, secs) = Inr (lt', t', secs')"
  shows "covered secs' = covered secs @ [lt + 1..lt'] \<and> lt \<le> lt'
         \<and> (ps \<noteq> [] \<longrightarrow> t' = snd (last ps) \<and> lt' = t')
         \<and> (ps = [] \<longrightarrow> t' = t0 \<and> secs' = secs)"
  using assms
proof (induction ps arbitrary: lt t0 secs)
  case Nil
  then show ?case by simp
next
  case (Cons p ps)
  obtain s e where p: "p = (s, e)" by (cases p)
  have c: "lt < s" "s \<le> e" "pairs_chain e ps" using Cons.prems(1) p by simp_all
  obtain u r where u: "(if s \<noteq> lt + 1 then create_section seps info (lt + 1) (s - 1) else Inr []) = Inr u"
    and r: "create_section seps info s e = Inr r"
    and rest: "section_loop seps info ps (e, e, secs @ u @ r) = Inr (lt', t', secs')"
    using Cons.prems(2) p by (auto simp: ebind_def split: sum.splits)
  have cu: "covered u = [lt + 1..s - 1]"
  proof (cases "s = lt + 1")
    case True
    then show ?thesis using u by (auto simp: covered_def)
  next
    case False
    then have "create_section seps info (lt + 1) (s - 1) = Inr u" using u by simp
    moreover have "lt + 1 \<le> s - 1" using c(1) False by simp
    ultimately show ?thesis by (rule create_section_covers)
  qed
  have cr: "covered r = [s..e]" by (rule create_section_covers [OF r c(2)])
  have ih: "covered secs' = covered (secs @ u @ r) @ [e + 1..lt'] \<and> e \<le> lt'
         \<and> (ps \<noteq> [] \<longrightarrow> t' = snd (last ps) \<and> lt' = t')
         \<and> (ps = [] \<longrightarrow> t' = e \<and> secs' = secs @ u @ r)"
    by (rule Cons.IH [OF c(3) rest])
  have lte: "ps = [] \<Longrightarrow> lt' = e"
    using rest by simp
  have j1: "[lt + 1..s - 1] @ [s..e] = [lt + 1..e]"
    using c by (intro upto_split1 [symmetric]) auto
  have j2: "[lt + 1..e] @ [e + 1..lt'] = [lt + 1..lt']"
    using c ih by (intro upto_split2 [symmetric]) auto
  have "covered secs' = covered secs @ [lt + 1..lt']"
    using ih cu cr j1 j2 by (simp add: covered_append)
  moreover have "lt \<le> lt'" using c ih by simp
  moreover have "t' = snd (last (p # ps)) \<and> lt' = t'"
    using ih p lte by (cases "ps = []") auto
  ultimately show ?case by simp
qed

lemma section_loop_keeps:
  assumes "section_loop seps info ps (lt, t0, secs) = Inr (lt', t', secs')"
  shows "set secs \<subseteq> set secs' \<and> (\<forall>(s, e) \<in> set ps. e < s \<longrightarrow> (s, e) \<in> set secs')"
  using assms
proof (induction ps arbitrary: lt t0 secs)
  case Nil
  then show ?case by simp
next
  case (Cons p ps)
  obtain s e where p: "p = (s, e)" by (cases p)
  obtain u r where r: "create_section seps info s e = Inr r"
    and rest: "section_loop seps info ps (e, e, secs @ u @ r) = Inr (lt', t', secs')"
    using Cons.prems p by (auto simp: ebind_def split: sum.splits)
  have ih: "set (secs @ u @ r) \<subseteq> set secs' \<and> (\<forall>(s, e) \<in> set ps. e < s \<longrightarrow> (s, e) \<in> set secs')"
    by (rule Cons.IH [OF rest])
  have "e < s \<Longrightarrow> (s, e) \<in> set secs'"
    using create_section_reversed [OF r] ih by auto
  then show ?case using ih p by auto
qed

lemma section_of_range:
  "section_of secs mc = Some k \<Longrightarrow> k < length secs \<and> fst (secs ! k) \<le> mc \<and> mc \<le> snd (secs ! k)"
proof (induction secs arbitrary: k rule: rev_induct)
  case Nil
  then show ?case by (simp add: section_of_def)
next
  case (snoc x xs)
  obtain f t where x: "x = (f, t)" by (cases x)
  have z: "zip [0..<length (xs @ [x])] (xs @ [x]) = zip [0..<length xs] xs @ [(length xs, x)]"
    by simp
  have so: "section_of (xs @ [x]) mc = (if f \<le> mc \<and> mc \<le> t then Some (length xs) else section_of xs mc)"
    unfolding section_of_def z by (simp add: x)
  show ?case
  proof (cases "f \<le> mc \<and> mc \<le> t")
    case True
    then show ?thesis using snoc.prems so x by auto
  next
    case False
    then have "section_of xs mc = Some k" using snoc.prems unfolding so by (simp split: if_splits)
    then have "k < length xs \<and> fst (xs ! k) \<le> mc \<and> mc \<le> snd (xs ! k)" by (rule snoc.IH)
    then show ?thesis by (simp add: nth_append)
  qed
qed

lemma reversed_section_aborts:
  assumes "(s, e) \<in> set secs" and "e < s"
  shows "list_ex (\<lambda>k. \<not> list_ex (\<lambda>mc. section_of secs mc = Some k) mcs) [0..<length secs]"
proof -
  obtain k where k: "k < length secs" "secs ! k = (s, e)"
    using assms(1) by (auto simp: in_set_conv_nth)
  have "\<not> list_ex (\<lambda>mc. section_of secs mc = Some k) mcs"
  proof
    assume "list_ex (\<lambda>mc. section_of secs mc = Some k) mcs"
    then obtain mc where "section_of secs mc = Some k" by (auto simp: list_ex_iff)
    then have "fst (secs ! k) \<le> mc \<and> mc \<le> snd (secs ! k)" using section_of_range by blast
    then show False using k assms(2) by simp
  qed
  then show ?thesis using k by (auto simp: list_ex_iff)
qed

lemma info_at_Inr:
  "info_at info mc = Inr m \<Longrightarrow> 0 \<le> mc \<and> mc < int (length info)"
  by (simp add: info_at_def split: if_splits)

lemma create_section_in_range:
  assumes "create_section seps info fro to = Inr secs"
  shows "0 \<le> fro \<and> fro < int (length info) \<and> 0 \<le> to \<and> to < int (length info)"
proof (cases "info_at info fro")
  case (Inl e)
  then show ?thesis using assms by (simp add: create_section_def ebind_def)
next
  case a: (Inr a)
  show ?thesis
  proof (cases "info_at info to")
    case (Inl e)
    then show ?thesis using assms a by (simp add: create_section_def ebind_def)
  next
    case (Inr b)
    then show ?thesis using info_at_Inr [OF a] info_at_Inr [OF Inr] by simp
  qed
qed

lemma repeat_structure_cases:
  assumes "compute_repeat_structure (repeat_rows_of info) = Inr ps"
  shows "ps = []
         \<or> (pairs_chain (- 1) ps \<and> 1 \<le> snd (last ps) \<and> snd (last ps) \<le> int (length info) - 1)
         \<or> (\<exists>(s, e) \<in> set ps. e < s)"
proof -
  consider (none) "prepare_repeat_rows (repeat_rows_of info) = Inr None" "ps = []"
    | (some) df2 where "prepare_repeat_rows (repeat_rows_of info) = Inr (Some df2)"
                       "pair_repeat_rows df2 = Inr ps"
    using assms
    by (auto simp: compute_repeat_structure_def ebind_def split: sum.splits option.splits)
  then show ?thesis
  proof cases
    case none
    then show ?thesis by simp
  next
    case some
    have ok: "rows_ok (length info) df2" and ne: "df2 \<noteq> []" and pos: "row_mc_of (last df2) \<ge> 1"
      using prepare_rows_ok [OF some(1) considered_rows_ok] by simp_all
    obtain r rs where df2: "df2 = r # rs" using ne by (cases df2) auto
    have "sorted_wrt (<) (map row_mc_of df2)"
      using ok unfolding rows_ok_def by blast
    then have srt: "sorted_wrt (<) (row_mc_of r # map row_mc_of rs)"
      unfolding df2 by simp
    have lst: "last (row_mc_of r # map row_mc_of rs) = row_mc_of (last df2)"
      using last_map [of "r # rs" row_mc_of] by (simp add: df2)
    have "last df2 \<in> set df2" using ne by simp
    then have hi: "row_mc_of (last df2) \<le> int (length info) - 1"
      using ok by (auto simp: rows_ok_def)
    show ?thesis
    proof (cases "is_startRepeat r")
      case True
      have ps: "ps = close_spans (row_mc_of r) (row_mc_of r) rs"
        using some(2) pair_repeat_rows_aligned [OF True, of rs] by (simp add: df2)
      have "r \<in> set df2" by (simp add: df2)
      then have "0 \<le> row_mc_of r" using ok unfolding rows_ok_def by auto
      then have "- 1 < row_mc_of r" by simp
      then have "pairs_chain (- 1) ps \<and> ps \<noteq> [] \<and> snd (last ps) = last (row_mc_of r # map row_mc_of rs)"
        unfolding ps by (intro close_spans_chain [OF srt]) auto
      then show ?thesis using lst pos hi by simp
    next
      case False
      have ps: "ps = zip (map (row_mc_of \<circ> fst) (filter snd (zip rs (map is_startRepeat rs))))
                       (ends_from (row_mc_of r) rs)"
        using some(2) pair_repeat_rows_misaligned [OF False, of rs] by (simp add: df2)
      have rev: "\<forall>(s, p) \<in> set ps. p < s"
        unfolding ps by (rule misaligned_pairs_reversed [OF srt])
      show ?thesis
      proof (cases ps)
        case Nil
        then show ?thesis by simp
      next
        case (Cons p ps')
        obtain s e where p: "p = (s, e)" by (cases p)
        have mem: "(s, e) \<in> set ps" using Cons p by simp
        from rev mem have "case (s, e) of (s, p) \<Rightarrow> p < s" by (rule bspec)
        then have "e < s" by simp
        then have "\<exists>(s, e) \<in> set ps. e < s"
          using mem by (intro bexI [of _ "(s, e)"]) simp_all
        then show ?thesis by simp
      qed
    qed
  qed
qed

text \<open>Ranges that cover a list without repetition hold every measure count once.\<close>

lemma covered_member:
  "(mc \<in> set (covered secs)) = (\<exists>k < length secs. fst (secs ! k) \<le> mc \<and> mc \<le> snd (secs ! k))"
proof -
  have "(mc \<in> set (covered secs)) = (\<exists>p \<in> set secs. fst p \<le> mc \<and> mc \<le> snd p)"
    by (induction secs) (auto simp: covered_def)
  also have "\<dots> = (\<exists>k < length secs. fst (secs ! k) \<le> mc \<and> mc \<le> snd (secs ! k))"
    by (metis in_set_conv_nth)
  finally show ?thesis .
qed

lemma covered_distinct_unique:
  assumes "distinct (covered secs)"
    and "k < length secs" "fst (secs ! k) \<le> mc" "mc \<le> snd (secs ! k)"
    and "j < length secs" "fst (secs ! j) \<le> mc" "mc \<le> snd (secs ! j)"
  shows "k = j"
  using assms
proof (induction secs arbitrary: k j)
  case Nil
  then show ?case by simp
next
  case (Cons x xs)
  obtain f t where x: "x = (f, t)" by (cases x)
  have d: "distinct (covered xs)" and dis: "set [f..t] \<inter> set (covered xs) = {}"
    using Cons.prems(1) by (simp_all add: covered_def x)
  have tail: "i < length xs \<Longrightarrow> fst (xs ! i) \<le> mc \<Longrightarrow> mc \<le> snd (xs ! i)
              \<Longrightarrow> mc \<in> set (covered xs)" for i
    using covered_member [of mc xs] by blast
  show ?case
  proof (cases k)
    case 0
    show ?thesis
    proof (cases j)
      case 0
      then show ?thesis using \<open>k = 0\<close> by simp
    next
      case (Suc j')
      have "mc \<in> set [f..t]" using Cons.prems(3,4) \<open>k = 0\<close> x by simp
      moreover have "mc \<in> set (covered xs)"
        using tail [of j'] Cons.prems(5,6,7) Suc by simp
      ultimately show ?thesis using dis by blast
    qed
  next
    case (Suc k')
    show ?thesis
    proof (cases j)
      case 0
      have "mc \<in> set [f..t]" using Cons.prems(6,7) 0 x by simp
      moreover have "mc \<in> set (covered xs)"
        using tail [of k'] Cons.prems(2,3,4) Suc by simp
      ultimately show ?thesis using dis by blast
    next
      case j: (Suc j')
      have "k' = j'"
        using Cons.IH [OF d, of k' j'] Cons.prems Suc j by simp
      then show ?thesis using Suc j by simp
    qed
  qed
qed

text \<open>
  The ranges of \<^verbatim>\<open>section_structure\<close>, one after the other, are the measure counts from 0
  to the last one.
\<close>

lemma sections_cover:
  assumes "build_sections seps info = Inr secs"
  shows "covered secs = [0..int (length info) - 1]"
proof -
  let ?last = "int (length info) - 1"
  obtain ps lt to secs0 where
    ps: "compute_repeat_structure (repeat_rows_of info) = Inr ps"
    and loop: "section_loop seps info ps (- 1, 0, []) = Inr (lt, to, secs0)"
    and trail: "(if to \<noteq> ?last
                 then ebind (create_section seps info (if to > 0 then to + 1 else 0) ?last)
                        (\<lambda>trailing. Inr (secs0 @ trailing))
                 else Inr secs0) = Inr secs"
    and ne: "secs \<noteq> []"
    and chk: "\<not> list_ex (\<lambda>k. \<not> list_ex (\<lambda>mc. section_of secs mc = Some k) [0..?last])
                        [0..<length secs]"
    using assms
    by (auto simp: build_sections_def Let_def ebind_def split: sum.splits prod.splits if_splits)
  have sub: "set secs0 \<subseteq> set secs"
    using trail by (auto simp: ebind_def split: if_splits sum.splits)
  from repeat_structure_cases [OF ps] consider
    (empty) "ps = []"
    | (chain) "pairs_chain (- 1) ps" "ps \<noteq> []" "1 \<le> snd (last ps)" "snd (last ps) \<le> ?last"
    | (reversed) "\<exists>(s, e) \<in> set ps. e < s"
    by (cases "ps = []") auto
  then show ?thesis
  proof cases
    case empty
    then have st: "to = 0" "secs0 = []" using loop by simp_all
    show ?thesis
    proof (cases "to = ?last")
      case True
      then show ?thesis using trail st ne by simp
    next
      case False
      then have c: "create_section seps info 0 ?last = Inr secs"
        using trail st by (auto simp: ebind_def split: sum.splits)
      have "0 \<le> ?last" using create_section_in_range [OF c] by simp
      then show ?thesis by (rule create_section_covers [OF c])
    qed
  next
    case chain
    have lc: "covered secs0 = covered [] @ [- 1 + 1..lt] \<and> - 1 \<le> lt
              \<and> (ps \<noteq> [] \<longrightarrow> to = snd (last ps) \<and> lt = to)
              \<and> (ps = [] \<longrightarrow> to = 0 \<and> secs0 = [])"
      by (rule section_loop_chain [OF chain(1) loop])
    then have cov0: "covered secs0 = [0..to]" and to: "to = snd (last ps)"
      using chain(2) by (simp_all add: covered_def)
    show ?thesis
    proof (cases "to = ?last")
      case True
      then show ?thesis using trail cov0 by simp
    next
      case False
      have pos: "0 < to" using to chain(3) by simp
      then obtain tr where c: "create_section seps info (to + 1) ?last = Inr tr"
        and secs: "secs = secs0 @ tr"
        using trail False by (auto simp: ebind_def split: sum.splits)
      have le: "to + 1 \<le> ?last" using to chain(4) False by simp
      have "covered tr = [to + 1..?last]" by (rule create_section_covers [OF c le])
      moreover have "[0..to] @ [to + 1..?last] = [0..?last]"
        using pos le by (intro upto_split2 [symmetric]) auto
      ultimately show ?thesis using cov0 secs by (simp add: covered_append)
    qed
  next
    case reversed
    then obtain s e where se: "(s, e) \<in> set ps" "e < s" by auto
    then have "(s, e) \<in> set secs0" using section_loop_keeps [OF loop] by auto
    then have mem: "(s, e) \<in> set secs" using sub by auto
    have "list_ex (\<lambda>k. \<not> list_ex (\<lambda>mc. section_of secs mc = Some k) [0..?last])
                  [0..<length secs]"
      by (rule reversed_section_aborts [OF mem se(2)])
    then show ?thesis using chk by simp
  qed
qed


text \<open>
  Claim C5: for every master table on which lines 998 to 1033 of the constructor raise no
  exception, the inclusive ranges of \<^verbatim>\<open>section_structure\<close>, taken in the order of the
  section ids, list the measure counts \<open>0, \<dots>, last_mc\<close> once each and in order; so every
  measure count belongs to exactly one section, and none lies in two ranges. Where the
  repeat structure pairs a \<^verbatim>\<open>startRepeat\<close> with a row before it, or no section is created,
  the constructor raises, and there is no constructed score.
\<close>

theorem sections_partition:
  assumes "build_sections seps info = Inr secs"
  shows "covered secs = [0..int (length info) - 1]
         \<and> (\<forall>mc. 0 \<le> mc \<and> mc \<le> int (length info) - 1 \<longrightarrow>
               (\<exists>!k. k < length secs \<and> fst (secs ! k) \<le> mc \<and> mc \<le> snd (secs ! k)))"
proof (intro conjI allI impI)
  show cov: "covered secs = [0..int (length info) - 1]"
    by (rule sections_cover [OF assms])
  fix mc
  assume mc: "0 \<le> mc \<and> mc \<le> int (length info) - 1"
  have d: "distinct (covered secs)" unfolding cov by simp
  have "mc \<in> set (covered secs)" unfolding cov using mc by simp
  then obtain k where k: "k < length secs \<and> fst (secs ! k) \<le> mc \<and> mc \<le> snd (secs ! k)"
    using covered_member [of mc secs] by blast
  show "\<exists>!k. k < length secs \<and> fst (secs ! k) \<le> mc \<and> mc \<le> snd (secs ! k)"
  proof (rule ex1I [of _ k])
    show "k < length secs \<and> fst (secs ! k) \<le> mc \<and> mc \<le> snd (secs ! k)" by (rule k)
  next
    fix j
    assume "j < length secs \<and> fst (secs ! j) \<le> mc \<and> mc \<le> snd (secs ! j)"
    then show "j = k" using covered_distinct_unique [OF d, of j mc k] k by simp
  qed
qed


text \<open>
  The theorem on five measures with a repeat sign at the end of the fourth and a double
  barline at the end of the third: the sections are the measures 0 to 2, the measure 3 and
  the measure 4.
\<close>

theorem sections_partition_witness:
  "build_sections [''double'']
      [\<lparr>keysig = None, timesig = None, act_dur = None, voices = Some 1, repeats = Some ''firstMeasure'',
        volta = None, barline = None, numbering_offset = None, dont_count = None\<rparr>,
       \<lparr>keysig = None, timesig = None, act_dur = None, voices = Some 1, repeats = None,
        volta = None, barline = None, numbering_offset = None, dont_count = None\<rparr>,
       \<lparr>keysig = None, timesig = None, act_dur = None, voices = Some 1, repeats = None,
        volta = None, barline = Some ''double'', numbering_offset = None, dont_count = None\<rparr>,
       \<lparr>keysig = None, timesig = None, act_dur = None, voices = Some 1, repeats = Some ''endRepeat'',
        volta = None, barline = None, numbering_offset = None, dont_count = None\<rparr>,
       \<lparr>keysig = None, timesig = None, act_dur = None, voices = Some 1, repeats = Some ''lastMeasure'',
        volta = None, barline = None, numbering_offset = None, dont_count = None\<rparr>]
   = Inr [(0, 2), (3, 3), (4, 4)]
   \<and> covered [(0, 2), (3, 3), (4, 4)]
     = [0..int (length
      [\<lparr>keysig = None, timesig = None, act_dur = None, voices = Some 1, repeats = Some ''firstMeasure'',
        volta = None, barline = None, numbering_offset = None, dont_count = None\<rparr>,
       \<lparr>keysig = None, timesig = None, act_dur = None, voices = Some 1, repeats = None,
        volta = None, barline = None, numbering_offset = None, dont_count = None\<rparr>,
       \<lparr>keysig = None, timesig = None, act_dur = None, voices = Some 1, repeats = None,
        volta = None, barline = Some ''double'', numbering_offset = None, dont_count = None\<rparr>,
       \<lparr>keysig = None, timesig = None, act_dur = None, voices = Some 1, repeats = Some ''endRepeat'',
        volta = None, barline = None, numbering_offset = None, dont_count = None\<rparr>,
       \<lparr>keysig = None, timesig = None, act_dur = None, voices = Some 1, repeats = Some ''lastMeasure'',
        volta = None, barline = None, numbering_offset = None, dont_count = None\<rparr>]) - 1]"
proof -
  let ?info = "[\<lparr>keysig = None, timesig = None, act_dur = None, voices = Some 1, repeats = Some ''firstMeasure'',
        volta = None, barline = None, numbering_offset = None, dont_count = None\<rparr>,
       \<lparr>keysig = None, timesig = None, act_dur = None, voices = Some 1, repeats = None,
        volta = None, barline = None, numbering_offset = None, dont_count = None\<rparr>,
       \<lparr>keysig = None, timesig = None, act_dur = None, voices = Some 1, repeats = None,
        volta = None, barline = Some ''double'', numbering_offset = None, dont_count = None\<rparr>,
       \<lparr>keysig = None, timesig = None, act_dur = None, voices = Some 1, repeats = Some ''endRepeat'',
        volta = None, barline = None, numbering_offset = None, dont_count = None\<rparr>,
       \<lparr>keysig = None, timesig = None, act_dur = None, voices = Some 1, repeats = Some ''lastMeasure'',
        volta = None, barline = None, numbering_offset = None, dont_count = None\<rparr>]"
  have h: "build_sections [''double''] ?info = Inr [(0, 2), (3, 3), (4, 4)]"
    by code_simp
  from sections_partition [OF h] have "covered [(0, 2), (3, 3), (4, 4)] = [0..int (length ?info) - 1]"
    by (rule conjunct1)
  with h show ?thesis by (rule conjI)
qed

end
